theory Spec2Isabelle
  imports Complex_Main
begin

section \<open>Machine model\<close>

text \<open>
  The C sources work on \<^verbatim>\<open>int\<close> (32 bits), \<^verbatim>\<open>long\<close> (64 bits), \<^verbatim>\<open>double\<close>
  and on arrays reached through pointers.
  \<^item> An \<^verbatim>\<open>int\<close> is an \<open>int\<close> of HOL, and every arithmetic result that the code stores
    in an \<^verbatim>\<open>int\<close> goes through \<open>int32\<close>, the two's complement wrap-around.
  \<^item> A \<^verbatim>\<open>double\<close> is a \<open>real\<close> and the arithmetic is exact, with one exception: where
    a \<^verbatim>\<open>double\<close> is converted to an integer (\<open>expected_occ\<close>), the integer depends on
    the rounding of the operations before it, and the rounding is applied there, as the
    parameter \<open>double_round\<close>.
  \<^item> An array is the list of its cells. A read or a write outside the list is the
    fault \<open>OutOfBounds\<close>: the C code has undefined behaviour there.
  \<^item> A function that can fault returns \<open>fault + 'a\<close>, with \<open>Inl\<close> the fault.
  \<^item> \<open>NullPointer\<close> is a dereference of \<^verbatim>\<open>NULL\<close>; \<open>BadConversion\<close> is a conversion of a
    \<^verbatim>\<open>double\<close> to an integer type that cannot hold it (undefined in C).
  \<^item> \<open>DivisionByZero\<close> is a floating-point division by \<open>0.0\<close>. The C code does not
    stop there: it stores an infinity or a NaN and goes on. The reals have no such value, so
    the model stops and reports it.
  Arguments of type \<^verbatim>\<open>int\<close> are taken to be in the range of the type.
\<close>

datatype fault = OutOfBounds | NullPointer | BadConversion | DivisionByZero

definition int32 :: "int \<Rightarrow> int" where
  "int32 x = (x + 2147483648) mod 4294967296 - 2147483648"

definition char_at :: "string \<Rightarrow> int \<Rightarrow> fault + char" where
  "char_at seq k = (if 0 \<le> k \<and> k < int (length seq) then Inr (seq ! nat k) else Inl OutOfBounds)"

definition cell_at :: "'a list \<Rightarrow> int \<Rightarrow> fault + 'a" where
  "cell_at a k = (if 0 \<le> k \<and> k < int (length a) then Inr (a ! nat k) else Inl OutOfBounds)"

definition cell_set :: "'a list \<Rightarrow> int \<Rightarrow> 'a \<Rightarrow> fault + 'a list" where
  "cell_set a k x = (if 0 \<le> k \<and> k < int (length a) then Inr (a[nat k := x]) else Inl OutOfBounds)"

section \<open>Encoder (lib/markov.c)\<close>

text \<open>\<^verbatim>\<open>char2int\<close>: the switch over the eight letters, \<open>-1\<close> by default.\<close>

definition char2int :: "char \<Rightarrow> int" where
  "char2int c =
     (if c = CHR ''a'' \<or> c = CHR ''A'' then 0
      else if c = CHR ''c'' \<or> c = CHR ''C'' then 1
      else if c = CHR ''g'' \<or> c = CHR ''G'' then 2
      else if c = CHR ''t'' \<or> c = CHR ''T'' then 3
      else -1)"

text \<open>
  \<^verbatim>\<open>oligo2index_char\<close>: the loop runs \<open>i\<close> from \<open>l - 1\<close> down to \<open>0\<close>, with the
  accumulators \<open>value\<close> (\<open>val\<close> here) and \<open>S\<close>; an unknown letter returns \<open>-1\<close> at once.
\<close>

function oligo2index_char_loop :: "string \<Rightarrow> int \<Rightarrow> int \<Rightarrow> int \<Rightarrow> int \<Rightarrow> fault + int" where
  "oligo2index_char_loop seq pos i val S =
     (if 0 \<le> i then
        (case char_at seq (pos + i) of
           Inl e \<Rightarrow> Inl e
         | Inr c \<Rightarrow>
             (if char2int c = -1 then Inr (-1)
              else oligo2index_char_loop seq pos (i - 1)
                     (int32 (val + int32 (S * char2int c))) (int32 (S * 4))))
      else Inr val)"
  by pat_completeness auto
termination
  by (relation "measure (\<lambda>(seq, pos, i, val, S). nat (i + 1))") auto

definition oligo2index_char :: "string \<Rightarrow> int \<Rightarrow> int \<Rightarrow> fault + int" where
  "oligo2index_char seq pos l = oligo2index_char_loop seq pos (l - 1) 0 1"

text \<open>
  \<^verbatim>\<open>oligo2index_rc_char\<close>: the loop runs \<open>i\<close> from \<open>0\<close> up to \<open>l - 1\<close> and adds
  \<open>S * (3 - v)\<close>.
\<close>

function oligo2index_rc_char_loop :: "string \<Rightarrow> int \<Rightarrow> int \<Rightarrow> int \<Rightarrow> int \<Rightarrow> int \<Rightarrow> fault + int" where
  "oligo2index_rc_char_loop seq pos l i val S =
     (if i < l then
        (case char_at seq (pos + i) of
           Inl e \<Rightarrow> Inl e
         | Inr c \<Rightarrow>
             (if char2int c = -1 then Inr (-1)
              else oligo2index_rc_char_loop seq pos l (i + 1)
                     (int32 (val + int32 (S * (3 - char2int c)))) (int32 (S * 4))))
      else Inr val)"
  by pat_completeness auto
termination
  by (relation "measure (\<lambda>(seq, pos, l, i, val, S). nat (l - i))") auto

definition oligo2index_rc_char :: "string \<Rightarrow> int \<Rightarrow> int \<Rightarrow> fault + int" where
  "oligo2index_rc_char seq pos l = oligo2index_rc_char_loop seq pos l 0 0 1"


section \<open>Markov model (lib/markov.c)\<close>

record markov_t =
  order :: int
  S :: "real list"
  T :: "real list"

text \<open>The floor \<^verbatim>\<open>1e-100\<close> written into every cell at allocation.\<close>

definition floor_1e100 :: real where
  "floor_1e100 = 1 / 10 ^ 100"

text \<open>
  \<^verbatim>\<open>int size = pow(4, order)\<close>: the power is exact in a \<^verbatim>\<open>double\<close>; the conversion to
  \<^verbatim>\<open>int\<close> truncates (a negative order gives \<open>0\<close>) and is undefined from \<open>4 ^ 16\<close> on.
\<close>

definition pow4_int :: "int \<Rightarrow> fault + int" where
  "pow4_int ord =
     (if 16 \<le> ord then Inl BadConversion
      else if 0 \<le> ord then Inr (4 ^ nat ord) else Inr 0)"

text \<open>
  \<^verbatim>\<open>new_markov\<close>: \<open>S\<close> has \<open>size\<close> cells and \<open>T\<close> has \<open>size * 4\<close> cells, the product
  computed in \<^verbatim>\<open>int\<close>; every cell holds the floor. Allocation itself is taken to succeed.
  The variables \<^verbatim>\<open>size\<close> and \<^verbatim>\<open>sum\<close> of the source are \<open>sz\<close> and \<open>sm\<close> here.
\<close>

definition new_markov :: "int \<Rightarrow> fault + markov_t" where
  "new_markov ord =
     (case pow4_int ord of
        Inl e \<Rightarrow> Inl e
      | Inr sz \<Rightarrow>
          Inr \<lparr>order = ord,
               S = replicate (nat sz) floor_1e100,
               T = replicate (nat (int32 (sz * 4))) floor_1e100\<rparr>)"

text \<open>
  \<^verbatim>\<open>load_markov\<close> reads the file with \<^verbatim>\<open>skip_comments\<close>, \<^verbatim>\<open>fscanf\<close> and \<^verbatim>\<open>next_line\<close>.
  The model starts after the parsing: the file is the list of its data lines, each the
  identifier and the frequency that \<^verbatim>\<open>fscanf\<close> stored (the middle column is skipped by the
  format). An identifier is the list of its characters up to the terminating zero. An
  iteration in which \<^verbatim>\<open>fscanf\<close> reads nothing (a blank last line) sees the values of the
  previous one again: it is one more entry of the list.

  The body of the reading loop for one data line: the first line allocates the model, of
  order \<^verbatim>\<open>strlen(id) - 1\<close>; then \<^verbatim>\<open>S[prefix_index] += freq\<close> and
  \<^verbatim>\<open>T[4 * prefix_index + char2int(id[order])] = freq\<close>.
\<close>

definition load_line :: "markov_t option \<Rightarrow> string \<times> real \<Rightarrow> fault + markov_t" where
  "load_line self dl =
     (case (case self of None \<Rightarrow> new_markov (int (length (fst dl)) - 1) | Some m \<Rightarrow> Inr m) of
        Inl e \<Rightarrow> Inl e
      | Inr m \<Rightarrow>
          (case oligo2index_char (fst dl) 0 (order m) of
             Inl e \<Rightarrow> Inl e
           | Inr prefix_index \<Rightarrow>
               (case cell_at (S m) prefix_index of
                  Inl e \<Rightarrow> Inl e
                | Inr s \<Rightarrow>
                    (case cell_set (S m) prefix_index (s + snd dl) of
                       Inl e \<Rightarrow> Inl e
                     | Inr S' \<Rightarrow>
                         (case char_at (fst dl) (order m) of
                            Inl e \<Rightarrow> Inl e
                          | Inr c \<Rightarrow>
                              (case cell_set (T m) (int32 (int32 (4 * prefix_index) + char2int c))
                                      (snd dl) of
                                 Inl e \<Rightarrow> Inl e
                               | Inr T' \<Rightarrow> Inr (m\<lparr>S := S', T := T'\<rparr>)))))))"

fun load_lines :: "markov_t option \<Rightarrow> (string \<times> real) list \<Rightarrow> fault + markov_t option" where
  "load_lines self [] = Inr self"
| "load_lines self (dl # dls) =
     (case load_line self dl of Inl e \<Rightarrow> Inl e | Inr m \<Rightarrow> load_lines (Some m) dls)"

text \<open>\<^verbatim>\<open>for (j = lo; j < hi; j++) sum += a[j];\<close>\<close>

function sum_cells :: "real list \<Rightarrow> int \<Rightarrow> int \<Rightarrow> real \<Rightarrow> fault + real" where
  "sum_cells a j hi sm =
     (if j < hi then
        (case cell_at a j of Inl e \<Rightarrow> Inl e | Inr x \<Rightarrow> sum_cells a (j + 1) hi (sm + x))
      else Inr sm)"
  by pat_completeness auto
termination
  by (relation "measure (\<lambda>(a, j, hi, sm). nat (hi - j))") auto

text \<open>\<^verbatim>\<open>for (j = lo; j < hi; j++) a[j] = a[j] / sum;\<close>\<close>

function divide_cells :: "real list \<Rightarrow> int \<Rightarrow> int \<Rightarrow> real \<Rightarrow> fault + real list" where
  "divide_cells a j hi sm =
     (if j < hi then
        (case cell_at a j of
           Inl e \<Rightarrow> Inl e
         | Inr x \<Rightarrow>
             (if sm = 0 then Inl DivisionByZero
              else (case cell_set a j (x / sm) of
                      Inl e \<Rightarrow> Inl e
                    | Inr a' \<Rightarrow> divide_cells a' (j + 1) hi sm)))
      else Inr a)"
  by pat_completeness auto
termination
  by (relation "measure (\<lambda>(a, j, hi, sm). nat (hi - j))") auto

text \<open>
  \<^verbatim>\<open>for (i = 0; i < size * 4; i += 4)\<close>: each row of four cells is summed, then divided
  by its sum.
\<close>

function normalise_rows :: "real list \<Rightarrow> int \<Rightarrow> int \<Rightarrow> fault + real list" where
  "normalise_rows a i hi =
     (if i < hi then
        (case sum_cells a i (i + 4) 0 of
           Inl e \<Rightarrow> Inl e
         | Inr sm \<Rightarrow>
             (case divide_cells a i (i + 4) sm of
                Inl e \<Rightarrow> Inl e
              | Inr a' \<Rightarrow> normalise_rows a' (i + 4) hi))
      else Inr a)"
  by pat_completeness auto
termination
  by (relation "measure (\<lambda>(a, i, hi). nat (hi - i))") auto

definition load_markov :: "(string \<times> real) list \<Rightarrow> fault + markov_t" where
  "load_markov dls =
     (case load_lines None dls of
        Inl e \<Rightarrow> Inl e
      | Inr None \<Rightarrow> Inl NullPointer
      | Inr (Some m) \<Rightarrow>
          (case pow4_int (order m) of
             Inl e \<Rightarrow> Inl e
           | Inr sz \<Rightarrow>
               (case sum_cells (S m) 0 sz 0 of
                  Inl e \<Rightarrow> Inl e
                | Inr sm \<Rightarrow>
                    (case divide_cells (S m) 0 sz sm of
                       Inl e \<Rightarrow> Inl e
                     | Inr S' \<Rightarrow>
                         (case normalise_rows (T m) 0 (int32 (sz * 4)) of
                            Inl e \<Rightarrow> Inl e
                          | Inr T' \<Rightarrow> Inr (m\<lparr>S := S', T := T'\<rparr>))))))"

text \<open>
  \<^verbatim>\<open>markov_P\<close>: the first factor is \<open>S\<close> at the index of the \<open>length - 1\<close> letters from
  \<open>pos\<close>; the loop then runs \<open>i\<close> from \<open>order\<close> up to \<open>length - 1\<close> and reads \<open>seq[i]\<close> and
  the window of \<open>order\<close> letters from \<open>i - order\<close>.
\<close>

function markov_P_loop :: "markov_t \<Rightarrow> string \<Rightarrow> int \<Rightarrow> int \<Rightarrow> real \<Rightarrow> fault + real" where
  "markov_P_loop self seq len i p =
     (if i < len then
        (case char_at seq i of
           Inl e \<Rightarrow> Inl e
         | Inr c \<Rightarrow>
             (case oligo2index_char seq (i - order self) (order self) of
                Inl e \<Rightarrow> Inl e
              | Inr prefix \<Rightarrow>
                  (if char2int c = -1 \<or> prefix = -1 then Inr 0
                   else (case cell_at (T self) (int32 (int32 (4 * prefix) + char2int c)) of
                           Inl e \<Rightarrow> Inl e
                         | Inr t \<Rightarrow> markov_P_loop self seq len (i + 1) (p * t)))))
      else Inr p)"
  by pat_completeness auto
termination
  by (relation "measure (\<lambda>(self, seq, len, i, p). nat (len - i))") auto

definition markov_P :: "markov_t \<Rightarrow> string \<Rightarrow> int \<Rightarrow> int \<Rightarrow> fault + real" where
  "markov_P self seq pos len =
     (case oligo2index_char seq pos (len - 1) of
        Inl e \<Rightarrow> Inl e
      | Inr prefix \<Rightarrow>
          (if prefix = -1 then Inr 0
           else (case cell_at (S self) prefix of
                   Inl e \<Rightarrow> Inl e
                 | Inr p \<Rightarrow> markov_P_loop self seq len (order self) p)))"

section \<open>Report of word-analysis (word-analysis/main.c)\<close>

text \<open>
  The count table is declared in \<^verbatim>\<open>count.h\<close>, which is not among the sources: the
  record has the fields that \<^verbatim>\<open>main\<close> reads (\<^verbatim>\<open>size\<close> is \<open>size_tab\<close> here), the counters
  as integers and the flags as truth values.
\<close>

record count_t =
  size_tab :: int
  count_table :: "int list"
  palindromic :: "bool list"
  position_count :: int
  test_count :: int

text \<open>
  The decoders of \<^verbatim>\<open>count.h\<close>, \<^verbatim>\<open>pbinom\<close> of \<^verbatim>\<open>binomial.h\<close> and \<^verbatim>\<open>log10\<close> of the C
  library are called by \<^verbatim>\<open>main\<close> and are not among the sources: they are parameters.
  So is \<open>double_round\<close>, the rounding of the floating-point unit: the \<^verbatim>\<open>double\<close> that an
  operation stores for a real result.
\<close>

record externals =
  index2oligo :: "int \<Rightarrow> int \<Rightarrow> string"
  index2oligo_char :: "int \<Rightarrow> int \<Rightarrow> string"
  index2oligo_rc_char :: "int \<Rightarrow> int \<Rightarrow> string"
  pbinom :: "int \<Rightarrow> int \<Rightarrow> real \<Rightarrow> real"
  log10 :: "real \<Rightarrow> real"
  double_round :: "real \<Rightarrow> real"

text \<open>
  A printed line, with the columns of the header line. The frequency of a count-only line
  is \<open>None\<close> when \<^verbatim>\<open>n / (double) N\<close> divides by zero (C prints an infinity).
\<close>

datatype out_line =
    Count_line (col_seq: string) (col_id: string) (col_observed_freq: "real option") (col_occ: int)
  | Enrich_line (col_seq: string) (col_id: string) (col_exp_freq: real) (col_occ: int)
      (col_exp_occ: int) (col_occ_P: real) (col_occ_E: real) (col_occ_sig: real)

text \<open>
  The conversion of a \<^verbatim>\<open>double\<close> to \<^verbatim>\<open>long\<close>: the fraction is dropped (towards zero);
  undefined when the result does not fit in 64 bits.
\<close>

definition double_to_long :: "real \<Rightarrow> fault + int" where
  "double_to_long x =
     (if - 9223372036854775809 < x \<and> x < 9223372036854775808
      then Inr (if 0 \<le> x then \<lfloor>x\<rfloor> else \<lceil>x\<rceil>)
      else Inl BadConversion)"

text \<open>
  \<^verbatim>\<open>n_exp = N * p\<close>, with \<^verbatim>\<open>long n_exp\<close>, \<^verbatim>\<open>long N\<close> and \<^verbatim>\<open>double p\<close>: \<open>N\<close> is converted to
  a \<^verbatim>\<open>double\<close>, the product is rounded to a \<^verbatim>\<open>double\<close>, and that \<^verbatim>\<open>double\<close> is converted to
  \<^verbatim>\<open>long\<close>.
\<close>

definition expected_occ :: "externals \<Rightarrow> int \<Rightarrow> real \<Rightarrow> fault + int" where
  "expected_occ ext N p =
     double_to_long (double_round ext (double_round ext (real_of_int N) * p))"

text \<open>
  \<^verbatim>\<open>p = markov_P(bg, oligo, 0, oligo_length); if (rc && !count->palindromic[i]) p *= 2;\<close>
  The flag is read only when \<open>rc\<close> holds.
\<close>

definition background_p ::
  "externals \<Rightarrow> markov_t \<Rightarrow> count_t \<Rightarrow> bool \<Rightarrow> int \<Rightarrow> int \<Rightarrow> fault + real" where
  "background_p ext bg count rc oligo_length i =
     (case markov_P bg (index2oligo ext i oligo_length) 0 oligo_length of
        Inl e \<Rightarrow> Inl e
      | Inr p \<Rightarrow>
          (if rc then
             (case cell_at (palindromic count) i of
                Inl e \<Rightarrow> Inl e
              | Inr flag \<Rightarrow> Inr (if \<not> flag then p * 2 else p))
           else Inr p))"

text \<open>
  The body of the output loop at index \<open>i\<close>: \<open>None\<close> when the count is zero
  (\<^verbatim>\<open>continue\<close>), the printed line otherwise.
\<close>

definition report_line ::
  "externals \<Rightarrow> markov_t \<Rightarrow> count_t \<Rightarrow> bool \<Rightarrow> bool \<Rightarrow> int \<Rightarrow> int \<Rightarrow> fault + out_line option" where
  "report_line ext bg count rc count_only oligo_length i =
     (case cell_at (count_table count) i of
        Inl e \<Rightarrow> Inl e
      | Inr n \<Rightarrow>
          (if n = 0 then Inr None
           else
             (let N = position_count count;
                  freq = (if N = 0 then None else Some (real_of_int n / real_of_int N));
                  name = index2oligo_char ext i oligo_length;
                  ident = (if rc then name @ ''|'' @ index2oligo_rc_char ext i oligo_length
                           else name)
              in if count_only then Inr (Some (Count_line name ident freq n))
                 else
                   (case background_p ext bg count rc oligo_length i of
                      Inl e \<Rightarrow> Inl e
                    | Inr p \<Rightarrow>
                        (case expected_occ ext N p of
                           Inl e \<Rightarrow> Inl e
                         | Inr n_exp \<Rightarrow>
                             (let pv = pbinom ext n N p;
                                  ev = pv * real_of_int (test_count count);
                                  sig = - log10 ext ev
                              in Inr (Some (Enrich_line name ident p n n_exp pv ev sig))))))))"

text \<open>
  \<^verbatim>\<open>for (i = 0; i < count->size; i++)\<close>: the lines printed so far are \<open>out\<close>, each with
  the index of the iteration that printed it.
\<close>

function report_loop ::
  "externals \<Rightarrow> markov_t \<Rightarrow> count_t \<Rightarrow> bool \<Rightarrow> bool \<Rightarrow> int \<Rightarrow> int \<Rightarrow> (int \<times> out_line) list
     \<Rightarrow> fault + (int \<times> out_line) list" where
  "report_loop ext bg count rc count_only oligo_length i out =
     (if i < size_tab count then
        (case report_line ext bg count rc count_only oligo_length i of
           Inl e \<Rightarrow> Inl e
         | Inr None \<Rightarrow> report_loop ext bg count rc count_only oligo_length (i + 1) out
         | Inr (Some l) \<Rightarrow>
             report_loop ext bg count rc count_only oligo_length (i + 1) (out @ [(i, l)]))
      else Inr out)"
  by pat_completeness auto
termination
  by (relation "measure (\<lambda>(ext, bg, count, rc, count_only, oligo_length, i, out).
        nat (size_tab count - i))") auto

definition report ::
  "externals \<Rightarrow> markov_t \<Rightarrow> count_t \<Rightarrow> bool \<Rightarrow> bool \<Rightarrow> int \<Rightarrow> fault + (int \<times> out_line) list" where
  "report ext bg count rc count_only oligo_length =
     report_loop ext bg count rc count_only oligo_length 0 []"

section \<open>The formulas of the specification\<close>

text \<open>The letters of the alphabet, in either case.\<close>

definition alphabet :: "char set" where
  "alphabet = set ''ACGTacgt''"

text \<open>The index of a window as the specification writes it: the most significant letter first.\<close>

definition encode_forward_spec :: "string \<Rightarrow> nat \<Rightarrow> nat \<Rightarrow> int" where
  "encode_forward_spec seq pos L = (\<Sum>i<L. char2int (seq ! (pos + i)) * 4 ^ (L - 1 - i))"

text \<open>The reverse complement of a string: A and T are exchanged, C and G are exchanged, in either case.\<close>

definition complement_spec :: "char \<Rightarrow> char" where
  "complement_spec c =
     (if c = CHR ''A'' then CHR ''T'' else if c = CHR ''T'' then CHR ''A''
      else if c = CHR ''C'' then CHR ''G'' else if c = CHR ''G'' then CHR ''C''
      else if c = CHR ''a'' then CHR ''t'' else if c = CHR ''t'' then CHR ''a''
      else if c = CHR ''c'' then CHR ''g'' else if c = CHR ''g'' then CHR ''c''
      else c)"

definition reverse_complement_spec :: "string \<Rightarrow> string" where
  "reverse_complement_spec s = rev (map complement_spec s)"

text \<open>
  The likelihood of the first \<open>L\<close> letters of a sequence under a model of order \<open>k\<close>, as the
  specification writes it: \<open>S\<close> at the first \<open>k\<close> letters, times the transitions.
\<close>

definition likelihood_spec :: "markov_t \<Rightarrow> string \<Rightarrow> nat \<Rightarrow> real" where
  "likelihood_spec m seq L =
     S m ! nat (encode_forward_spec seq 0 (nat (order m))) *
     (\<Prod>i = nat (order m)..<L.
        T m ! nat (4 * encode_forward_spec seq (i - nat (order m)) (nat (order m)) + char2int (seq ! i)))"

section \<open>Auxiliary functions of the proofs\<close>

text \<open>The two accumulators of the encoder loops, run over the list of the letter values.\<close>

fun accum :: "int list \<Rightarrow> int \<Rightarrow> int \<Rightarrow> int" where
  "accum [] val w = val"
| "accum (v # vs) val w = accum vs (int32 (val + int32 (w * v))) (int32 (w * 4))"

text \<open>The value of a list of base-4 digits, the least significant first.\<close>

fun digits_value :: "int list \<Rightarrow> int" where
  "digits_value [] = 0"
| "digits_value (d # ds) = d + 4 * digits_value ds"

text \<open>The sum of the four cells of row \<open>q\<close> of a transition table.\<close>

definition row_sum :: "real list \<Rightarrow> nat \<Rightarrow> real" where
  "row_sum a q = a ! (4 * q) + a ! (4 * q + 1) + a ! (4 * q + 2) + a ! (4 * q + 3)"

text \<open>An array with the cells from \<open>j\<close> to \<open>hi - 1\<close> divided by \<open>sm\<close>.\<close>

definition divided :: "real list \<Rightarrow> nat \<Rightarrow> nat \<Rightarrow> real \<Rightarrow> real list" where
  "divided a j hi sm = map (\<lambda>i. if j \<le> i \<and> i < hi then a ! i / sm else a ! i) [0..<length a]"

text \<open>A transition table with every row from \<open>r\<close> on divided by its sum.\<close>

definition normalised_from :: "real list \<Rightarrow> nat \<Rightarrow> real list" where
  "normalised_from a r =
     map (\<lambda>i. if 4 * r \<le> i then a ! i / row_sum a (i div 4) else a ! i) [0..<length a]"

text \<open>
  A model as \<^verbatim>\<open>new_markov\<close> allocates it for an order \<open>k\<close>, and the shape that the reading
  loop keeps.
\<close>

definition fresh_model :: "nat \<Rightarrow> markov_t" where
  "fresh_model k =
     \<lparr>order = int k, S = replicate (4 ^ k) floor_1e100, T = replicate (4 * 4 ^ k) floor_1e100\<rparr>"

definition wf_model :: "markov_t \<Rightarrow> nat \<Rightarrow> bool" where
  "wf_model m k \<longleftrightarrow> order m = int k \<and> k \<le> 14 \<and> length (S m) = 4 ^ k \<and> length (T m) = 4 * 4 ^ k"

text \<open>
  A data line of a file of order \<open>k\<close>: \<open>k + 1\<close> letters of the alphabet. Its prefix index,
  the value of its last letter, and the cell of \<open>T\<close> that it writes.
\<close>

definition wf_line :: "nat \<Rightarrow> string \<times> real \<Rightarrow> bool" where
  "wf_line k dl \<longleftrightarrow> length (fst dl) = Suc k \<and> (\<forall>c\<in>set (fst dl). char2int c \<noteq> -1)"

definition line_prefix :: "nat \<Rightarrow> string \<times> real \<Rightarrow> nat" where
  "line_prefix k dl = nat (encode_forward_spec (fst dl) 0 k)"

definition line_symbol :: "nat \<Rightarrow> string \<times> real \<Rightarrow> nat" where
  "line_symbol k dl = nat (char2int (fst dl ! k))"

definition line_cell :: "nat \<Rightarrow> string \<times> real \<Rightarrow> nat" where
  "line_cell k dl = 4 * line_prefix k dl + line_symbol k dl"

text \<open>The effect of one well-formed data line on the model.\<close>

definition line_step :: "nat \<Rightarrow> markov_t \<Rightarrow> string \<times> real \<Rightarrow> markov_t" where
  "line_step k m dl =
     m\<lparr>S := (S m)[line_prefix k dl := S m ! line_prefix k dl + snd dl],
       T := (T m)[line_cell k dl := snd dl]\<rparr>"

text \<open>The entry \<open>T[prefix][symbol]\<close> of the model loaded from a file.\<close>

definition loaded_transition :: "(string \<times> real) list \<Rightarrow> nat \<Rightarrow> nat \<Rightarrow> fault + real" where
  "loaded_transition dls p c =
     (case load_markov dls of Inl e \<Rightarrow> Inl e | Inr m \<Rightarrow> cell_at (T m) (int (4 * p + c)))"

section \<open>Example inputs\<close>

text \<open>
  Modelled from the spec: the decoders \<^verbatim>\<open>index2oligo\<close>, \<^verbatim>\<open>index2oligo_char\<close> and
  \<^verbatim>\<open>index2oligo_rc_char\<close> of \<^verbatim>\<open>count.h\<close> are missing from the sources. The specification
  describes \<open>decode\<close> as the inverse of the forward encoding, the base-4 digits with the
  most significant first, mapped back to letters.
\<close>

definition letter_spec :: "int \<Rightarrow> char" where
  "letter_spec d =
     (if d = 0 then CHR ''A'' else if d = 1 then CHR ''C'' else if d = 2 then CHR ''G''
      else CHR ''T'')"

fun decode_spec :: "int \<Rightarrow> nat \<Rightarrow> string" where
  "decode_spec i 0 = []"
| "decode_spec i (Suc L) = decode_spec (i div 4) L @ [letter_spec (i mod 4)]"

text \<open>
  Modelled from the spec: \<^verbatim>\<open>pbinom\<close> of \<^verbatim>\<open>binomial.h\<close> is missing from the sources. The
  specification describes it as the probability that a binomial variable of \<open>N\<close> trials
  with probability \<open>p\<close> is at least \<open>n\<close>.
\<close>

definition binomial_tail_spec :: "int \<Rightarrow> int \<Rightarrow> real \<Rightarrow> real" where
  "binomial_tail_spec n N p =
     (\<Sum>k = nat n..nat N. real (nat N choose k) * p ^ k * (1 - p) ^ (nat N - k))"

text \<open>
  The rounding of IEEE 754 double precision, to the nearest value with a significand of
  53 bits, a tie going to the even significand; below \<open>2 ^ - 1022\<close> the spacing of the
  values stays \<open>2 ^ - 1074\<close>. The overflow to an infinity is left out: such a result is
  beyond the range of \<^verbatim>\<open>long\<close>, and its conversion is a fault already.
\<close>

definition round_half_even :: "real \<Rightarrow> int" where
  "round_half_even x =
     (if x - real_of_int \<lfloor>x\<rfloor> < 1 / 2 then \<lfloor>x\<rfloor>
      else if 1 / 2 < x - real_of_int \<lfloor>x\<rfloor> then \<lfloor>x\<rfloor> + 1
      else if even \<lfloor>x\<rfloor> then \<lfloor>x\<rfloor> else \<lfloor>x\<rfloor> + 1)"

definition double_ulp :: "real \<Rightarrow> real" where
  "double_ulp x = 2 powr real_of_int (max \<lfloor>log 2 \<bar>x\<bar>\<rfloor> (- 1022) - 52)"

definition round_double :: "real \<Rightarrow> real" where
  "round_double x =
     (if x = 0 then 0 else real_of_int (round_half_even (x / double_ulp x)) * double_ulp x)"

definition demo_externals :: externals where
  "demo_externals =
     \<lparr>index2oligo = (\<lambda>i l. decode_spec i (nat l)),
      index2oligo_char = (\<lambda>i l. decode_spec i (nat l)),
      index2oligo_rc_char = (\<lambda>i l. reverse_complement_spec (decode_spec i (nat l))),
      pbinom = binomial_tail_spec,
      log10 = log 10,
      double_round = round_double\<rparr>"

text \<open>A model of order 1 in which every prefix and every transition is equally likely.\<close>

definition demo_bg :: markov_t where
  "demo_bg = \<lparr>order = 1, S = replicate 4 (1 / 4), T = replicate 16 (1 / 4)\<rparr>"

text \<open>
  A count table for oligomers of length 2 with both strands folded: AC was counted 3 times
  and AT twice in 8 positions; AT, CG, GC and TA are flagged as palindromic.
\<close>

definition demo_count :: count_t where
  "demo_count =
     \<lparr>size_tab = 16,
      count_table = [0, 3, 0, 2, 0, 0, 0, 0, 0, 0, 0, 0, 0, 0, 0, 0],
      palindromic = [False, False, False, True, False, False, True, False,
                     False, True, False, False, True, False, False, False],
      position_count = 8,
      test_count = 8\<rparr>"

text \<open>The two lines that the report prints for this table in enrichment mode.\<close>

definition demo_line_AC :: out_line where
  "demo_line_AC =
     Enrich_line ''AC'' ''AC|GT'' (1 / 8) 3 1 (binomial_tail_spec 3 8 (1 / 8))
       (binomial_tail_spec 3 8 (1 / 8) * 8) (- log 10 (binomial_tail_spec 3 8 (1 / 8) * 8))"

definition demo_line_AT :: out_line where
  "demo_line_AT =
     Enrich_line ''AT'' ''AT|AT'' (1 / 16) 2 0 (binomial_tail_spec 2 8 (1 / 16))
       (binomial_tail_spec 2 8 (1 / 16) * 8) (- log 10 (binomial_tail_spec 2 8 (1 / 16) * 8))"

text \<open>
  Models of order 1 and 2 for the likelihood: \<open>model_order1\<close> has distinct prefix
  probabilities, \<open>model_skewed\<close> has one transition (from A to G) more likely than the
  others.
\<close>

definition model_order1 :: markov_t where
  "model_order1 = \<lparr>order = 1, S = [1 / 2, 1 / 4, 1 / 8, 1 / 8], T = replicate 16 (1 / 4)\<rparr>"

definition model_order2 :: markov_t where
  "model_order2 = \<lparr>order = 2, S = replicate 16 (1 / 16), T = replicate 64 (1 / 4)\<rparr>"

definition model_skewed :: markov_t where
  "model_skewed =
     \<lparr>order = 1, S = [1 / 4, 1 / 4, 1 / 4, 1 / 4],
      T = [1 / 4, 1 / 4, 1 / 2, 0, 1 / 4, 1 / 4, 1 / 4, 1 / 4,
           1 / 4, 1 / 4, 1 / 4, 1 / 4, 1 / 4, 1 / 4, 1 / 4, 1 / 4]\<rparr>"

section \<open>The encoder\<close>

declare oligo2index_char_loop.simps [simp del]
declare oligo2index_rc_char_loop.simps [simp del]
declare markov_P_loop.simps [simp del]
declare report_loop.simps [simp del]
declare sum_cells.simps [simp del]
declare divide_cells.simps [simp del]
declare normalise_rows.simps [simp del]

lemma char2int_alphabet: "char2int c \<noteq> -1 \<longleftrightarrow> c \<in> alphabet"
  by (simp add: char2int_def alphabet_def)

lemma char2int_range: "char2int c \<noteq> -1 \<Longrightarrow> 0 \<le> char2int c \<and> char2int c \<le> 3"
  by (simp add: char2int_def split: if_splits)

lemma int32_id: "- 2147483648 \<le> x \<Longrightarrow> x < 2147483648 \<Longrightarrow> int32 x = x"
  by (simp add: int32_def)

lemma char_at_in: "k < length seq \<Longrightarrow> char_at seq (int k) = Inr (seq ! k)"
  by (simp add: char_at_def)

lemma fwd_loop_valid:
  "pos + n \<le> length seq \<Longrightarrow> \<forall>k<n. char2int (seq ! (pos + k)) \<noteq> -1 \<Longrightarrow>
   oligo2index_char_loop seq (int pos) (int n - 1) val w =
     Inr (accum (rev (map char2int (take n (drop pos seq)))) val w)"
proof (induction n arbitrary: val w)
  case 0
  show ?case by (subst oligo2index_char_loop.simps) simp
next
  case (Suc n)
  have lt: "pos + n < length seq" using Suc.prems(1) by simp
  have rd: "char_at seq (int pos + int (Suc n) - 1) = Inr (seq ! (pos + n))"
    using char_at_in [OF lt] by (simp add: add.commute)
  have ok: "char2int (seq ! (pos + n)) \<noteq> -1" using Suc.prems(2) by simp
  have tk: "take (Suc n) (drop pos seq) = take n (drop pos seq) @ [seq ! (pos + n)]"
    using lt by (simp add: take_Suc_conv_app_nth)
  have ih: "oligo2index_char_loop seq (int pos) (int n - 1) v' w' =
     Inr (accum (rev (map char2int (take n (drop pos seq)))) v' w')" for v' w'
    using Suc.IH [of v' w'] Suc.prems by simp
  show ?case
    apply (subst oligo2index_char_loop.simps)
    using rd ok ih tk by (simp add: add.commute)
qed

lemma fwd_loop_invalid:
  "pos + n \<le> length seq \<Longrightarrow> \<exists>k<n. char2int (seq ! (pos + k)) = -1 \<Longrightarrow>
   oligo2index_char_loop seq (int pos) (int n - 1) val w = Inr (-1)"
proof (induction n arbitrary: val w)
  case 0
  then show ?case by simp
next
  case (Suc n)
  have lt: "pos + n < length seq" using Suc.prems(1) by simp
  have rd: "char_at seq (int pos + int (Suc n) - 1) = Inr (seq ! (pos + n))"
    using char_at_in [OF lt] by (simp add: add.commute)
  show ?case
  proof (cases "char2int (seq ! (pos + n)) = -1")
    case True
    show ?thesis
      apply (subst oligo2index_char_loop.simps)
      using rd True by (simp add: add.commute)
  next
    case False
    with Suc.prems(2) have "\<exists>k<n. char2int (seq ! (pos + k)) = -1"
      by (metis less_Suc_eq)
    then have ih: "oligo2index_char_loop seq (int pos) (int n - 1) v' w' = Inr (-1)" for v' w'
      using Suc.IH [of v' w'] Suc.prems(1) by simp
    show ?thesis
      apply (subst oligo2index_char_loop.simps)
      using rd False ih by (simp add: add.commute)
  qed
qed

lemma accum_no_overflow:
  "\<forall>d\<in>set ds. 0 \<le> d \<and> d \<le> 3 \<Longrightarrow> k + length ds \<le> 15 \<Longrightarrow> 0 \<le> val \<Longrightarrow> val < 4 ^ k \<Longrightarrow>
   accum ds val (4 ^ k) = val + 4 ^ k * digits_value ds"
proof (induction ds arbitrary: val k)
  case Nil
  then show ?case by simp
next
  case (Cons d ds)
  define P :: int where "P = 4 ^ k"
  have d: "0 \<le> d" "d \<le> 3" using Cons.prems(1) by simp_all
  have k: "Suc k \<le> 15" using Cons.prems(2) by simp
  have "(4::int) ^ Suc k \<le> 4 ^ 15" using k by (intro power_increasing) simp_all
  then have p: "4 * P \<le> 1073741824" by (simp add: P_def)
  have p0: "0 < P" by (simp add: P_def)
  have m1: "0 \<le> P * d" using d p0 by simp
  have "P * d \<le> P * 3" using d p0 by (intro mult_left_mono) simp_all
  then have m2: "P * d \<le> 3 * P" by (simp only: mult.commute)
  have v: "0 \<le> val" "val < P" using Cons.prems(3,4) by (simp_all add: P_def)
  have s: "val + P * d < 4 * P" using m2 v by linarith
  have e1: "int32 (P * d) = P * d"
    by (rule int32_id) (use m1 m2 p in linarith)+
  have e2: "int32 (val + P * d) = val + P * d"
    by (rule int32_id) (use m1 s p v in linarith)+
  have e3: "int32 (P * 4) = 4 * P"
  proof -
    have "int32 (4 * P) = 4 * P" by (rule int32_id) (use p p0 in linarith)+
    then show ?thesis by (simp only: mult.commute)
  qed
  have s': "val + P * d < 4 ^ Suc k" using s by (simp add: P_def)
  have "accum ds (val + P * d) (4 ^ Suc k) = (val + P * d) + 4 ^ Suc k * digits_value ds"
    using Cons.prems(1,2) m1 v(1) s' by (intro Cons.IH) simp_all
  then have "accum ds (val + P * d) (4 * P) = (val + P * d) + 4 * P * digits_value ds"
    by (simp add: P_def)
  then have "accum (d # ds) val P = val + P * digits_value (d # ds)"
    using e1 e2 e3 by (simp add: algebra_simps)
  then show ?case by (simp only: P_def)
qed


lemma digits_value_snoc: "digits_value (ds @ [d]) = digits_value ds + 4 ^ length ds * d"
  by (induction ds) (simp_all add: algebra_simps)

lemma digits_value_rev_sum:
  "digits_value (rev xs) = (\<Sum>i<length xs. xs ! i * 4 ^ (length xs - 1 - i))"
proof (induction xs)
  case Nil
  show ?case by simp
next
  case (Cons x xs)
  have "(\<Sum>i<length (x # xs). (x # xs) ! i * 4 ^ (length (x # xs) - 1 - i)) =
        x * 4 ^ length xs + (\<Sum>i<length xs. xs ! i * 4 ^ (length xs - Suc i))"
    by (simp add: sum.lessThan_Suc_shift del: sum.lessThan_Suc)
  then show ?case using Cons.IH by (simp add: digits_value_snoc)
qed

lemma digits_value_bounds:
  "\<forall>d\<in>set ds. 0 \<le> d \<and> d \<le> 3 \<Longrightarrow> 0 \<le> digits_value ds \<and> digits_value ds < 4 ^ length ds"
  by (induction ds) auto

lemma digits_value_inj:
  "length ds = length es \<Longrightarrow> \<forall>d\<in>set ds. 0 \<le> d \<and> d \<le> 3 \<Longrightarrow> \<forall>d\<in>set es. 0 \<le> d \<and> d \<le> 3 \<Longrightarrow>
   digits_value ds = digits_value es \<Longrightarrow> ds = es"
proof (induction ds es rule: list_induct2)
  case Nil
  show ?case by simp
next
  case (Cons d ds e es)
  have r: "0 \<le> d" "d \<le> 3" "0 \<le> e" "e \<le> 3" using Cons.prems(1,2) by simp_all
  have eq: "d + 4 * digits_value ds = e + 4 * digits_value es" using Cons.prems(3) by simp
  have "d = e" using r eq by presburger
  moreover have "digits_value ds = digits_value es" using r eq by presburger
  ultimately show ?case using Cons.IH Cons.prems(1,2) by simp
qed

lemma rc_loop_valid:
  "pos + l \<le> length seq \<Longrightarrow> i \<le> l \<Longrightarrow> \<forall>k<l. char2int (seq ! (pos + k)) \<noteq> -1 \<Longrightarrow>
   oligo2index_rc_char_loop seq (int pos) (int l) (int i) val w =
     Inr (accum (map (\<lambda>c. 3 - char2int c) (drop i (take l (drop pos seq)))) val w)"
proof (induction "l - i" arbitrary: i val w)
  case 0
  then have "i = l" by simp
  then show ?case by (subst oligo2index_rc_char_loop.simps) simp
next
  case (Suc m)
  have il: "i < l" using Suc.hyps(2) by simp
  have lt: "pos + i < length seq" using il Suc.prems(1) by simp
  have rd: "char_at seq (int pos + int i) = Inr (seq ! (pos + i))"
    using char_at_in [OF lt] by simp
  have ok: "char2int (seq ! (pos + i)) \<noteq> -1" using Suc.prems(3) il by simp
  have len: "i < length (take l (drop pos seq))" using il Suc.prems(1) by simp
  have dr: "drop i (take l (drop pos seq)) = seq ! (pos + i) # drop (Suc i) (take l (drop pos seq))"
    using Cons_nth_drop_Suc [OF len] il lt by simp
  have ih: "oligo2index_rc_char_loop seq (int pos) (int l) (int i + 1) v' w' =
     Inr (accum (map (\<lambda>c. 3 - char2int c) (drop (Suc i) (take l (drop pos seq)))) v' w')" for v' w'
    using Suc.hyps(1) [of "Suc i" v' w'] Suc.hyps(2) Suc.prems il by (simp add: add.commute)
  show ?case
    apply (subst oligo2index_rc_char_loop.simps)
    using rd ok ih dr il by simp
qed

lemma char2int_complement: "char2int c \<noteq> -1 \<Longrightarrow> char2int (complement_spec c) = 3 - char2int c"
  by (simp add: char2int_def complement_spec_def split: if_splits)

lemma char2int_complement_valid: "char2int c \<noteq> -1 \<Longrightarrow> char2int (complement_spec c) \<noteq> -1"
  using char2int_complement [of c] char2int_range [of c] by linarith

text \<open>
  Claim C2. For every string \<open>s\<close> over the letters A, C, G, T (in either case), of any
  length, \<^verbatim>\<open>oligo2index_rc_char(s, 0, L)\<close> returns the same index as \<^verbatim>\<open>oligo2index_char\<close>
  on the reverse complement of \<open>s\<close>, and it returns an index rather than a fault. The
  two loops add the same terms in the same order, so the equality also holds where the
  32-bit accumulators wrap around.
\<close>

theorem oligo2index_rc_char_reverse_complement:
  assumes "set s \<subseteq> alphabet"
  shows "oligo2index_rc_char s 0 (int (length s)) =
           oligo2index_char (reverse_complement_spec s) 0 (int (length s)) \<and>
         (\<exists>v. oligo2index_rc_char s 0 (int (length s)) = Inr v)"
proof -
  let ?ds = "map (\<lambda>c. 3 - char2int c) s"
  have ok: "\<forall>c\<in>set s. char2int c \<noteq> -1" using assms char2int_alphabet by blast
  have v: "\<forall>k<length s. char2int (s ! (0 + k)) \<noteq> -1" using ok by simp
  have rc: "oligo2index_rc_char s 0 (int (length s)) = Inr (accum ?ds 0 1)"
    using rc_loop_valid [of 0 "length s" s 0 0 1] v by (simp add: oligo2index_rc_char_def)
  have v': "\<forall>k<length s. char2int (reverse_complement_spec s ! (0 + k)) \<noteq> -1"
    using ok char2int_complement_valid
    by (simp add: reverse_complement_spec_def rev_nth)
  have m: "rev (map char2int (reverse_complement_spec s)) = ?ds"
    using ok by (simp add: reverse_complement_spec_def rev_map char2int_complement)
  have fw: "oligo2index_char (reverse_complement_spec s) 0 (int (length s)) = Inr (accum ?ds 0 1)"
    using fwd_loop_valid [of 0 "length s" "reverse_complement_spec s" 0 1] v' m
    by (simp add: oligo2index_char_def reverse_complement_spec_def)
  show ?thesis using rc fw by simp
qed

theorem oligo2index_rc_char_reverse_complement_witness:
  "oligo2index_rc_char ''AAcG'' 0 4 = oligo2index_char ''CgTT'' 0 4 \<and>
   oligo2index_rc_char ''AAcG'' 0 4 = Inr 111"
proof -
  have v: "set ''AAcG'' \<subseteq> alphabet"
    by (simp add: alphabet_def)
  have r: "reverse_complement_spec ''AAcG'' = ''CgTT''"
    by (simp add: reverse_complement_spec_def complement_spec_def)
  have e: "oligo2index_char ''CgTT'' 0 4 = Inr 111"
    by (simp add: oligo2index_char_def oligo2index_char_loop.simps char_at_def char2int_def
        int32_def)
  show ?thesis
    using oligo2index_rc_char_reverse_complement [OF v] r e by simp
qed


lemma window_digits:
  assumes "pos + L \<le> length seq" and "\<forall>i<L. char2int (seq ! (pos + i)) \<noteq> -1"
  shows "\<forall>d\<in>set (rev (map char2int (take L (drop pos seq)))). 0 \<le> d \<and> d \<le> 3"
proof -
  have "0 \<le> char2int c \<and> char2int c \<le> 3" if "c \<in> set (take L (drop pos seq))" for c
  proof -
    from that obtain i where i: "i < length (take L (drop pos seq))" "c = take L (drop pos seq) ! i"
      by (auto simp: in_set_conv_nth)
    then have "i < L" "c = seq ! (pos + i)" using assms(1) by simp_all
    then show ?thesis using assms(2) char2int_range by blast
  qed
  then show ?thesis by auto
qed

lemma window_value:
  assumes "pos + L \<le> length seq"
  shows "digits_value (rev (map char2int (take L (drop pos seq)))) = encode_forward_spec seq pos L"
proof -
  let ?xs = "map char2int (take L (drop pos seq))"
  have len: "length ?xs = L" using assms by simp
  have "digits_value (rev ?xs) = (\<Sum>i<L. ?xs ! i * 4 ^ (L - 1 - i))"
    using digits_value_rev_sum [of ?xs] len by simp
  also have "\<dots> = (\<Sum>i<L. char2int (seq ! (pos + i)) * 4 ^ (L - 1 - i))"
    using assms by (intro sum.cong) simp_all
  finally show ?thesis by (simp add: encode_forward_spec_def)
qed

lemma encode_forward_spec_bounds:
  assumes "pos + L \<le> length seq" and "\<forall>i<L. char2int (seq ! (pos + i)) \<noteq> -1"
  shows "0 \<le> encode_forward_spec seq pos L \<and> encode_forward_spec seq pos L < 4 ^ L"
proof -
  have "0 \<le> digits_value (rev (map char2int (take L (drop pos seq)))) \<and>
        digits_value (rev (map char2int (take L (drop pos seq))))
          < 4 ^ length (rev (map char2int (take L (drop pos seq))))"
    using window_digits [OF assms] by (rule digits_value_bounds)
  then show ?thesis using window_value [OF assms(1)] assms(1) by simp
qed

lemma oligo2index_char_valid:
  assumes "L \<le> 15" and "pos + L \<le> length seq" and "\<forall>i<L. char2int (seq ! (pos + i)) \<noteq> -1"
  shows "oligo2index_char seq (int pos) (int L) = Inr (encode_forward_spec seq pos L)"
proof -
  let ?ds = "rev (map char2int (take L (drop pos seq)))"
  have "oligo2index_char seq (int pos) (int L) = Inr (accum ?ds 0 1)"
    using fwd_loop_valid [OF assms(2,3)] by (simp add: oligo2index_char_def)
  moreover have "accum ?ds 0 (4 ^ 0) = 0 + 4 ^ 0 * digits_value ?ds"
    using window_digits [OF assms(2,3)] assms(1,2) by (intro accum_no_overflow) simp_all
  ultimately show ?thesis using window_value [OF assms(2)] by simp
qed

lemma window_inj:
  assumes "pos + L \<le> length seq" and "\<forall>i<L. char2int (seq ! (pos + i)) \<noteq> -1"
    and "pos' + L \<le> length seq'" and "\<forall>i<L. char2int (seq' ! (pos' + i)) \<noteq> -1"
    and "encode_forward_spec seq' pos' L = encode_forward_spec seq pos L"
  shows "\<forall>i<L. char2int (seq' ! (pos' + i)) = char2int (seq ! (pos + i))"
proof -
  let ?xs = "map char2int (take L (drop pos seq))"
  let ?ys = "map char2int (take L (drop pos' seq'))"
  have "rev ?ys = rev ?xs"
    using window_digits [OF assms(3,4)] window_digits [OF assms(1,2)]
      window_value [OF assms(1)] window_value [OF assms(3)] assms(1,3,5)
    by (intro digits_value_inj) simp_all
  then have eq: "?ys = ?xs" by simp
  show ?thesis
  proof (intro allI impI)
    fix i assume i: "i < L"
    have "?ys ! i = char2int (seq' ! (pos' + i))" "?xs ! i = char2int (seq ! (pos + i))"
      using i assms(1,3) by simp_all
    then show "char2int (seq' ! (pos' + i)) = char2int (seq ! (pos + i))" using eq by simp
  qed
qed

lemma all_less_4: "(\<forall>i<4::nat. P i) = (P 0 \<and> P 1 \<and> P 2 \<and> P 3)"
  by (auto simp: less_Suc_eq numeral_eq_Suc)

text \<open>
  Claim C5, amended. For every sequence, every offset and every length \<open>L\<close> from 1 to 15
  whose window lies inside the sequence: if all \<open>L\<close> letters of the window are among
  A, C, G, T (in either case), \<^verbatim>\<open>oligo2index_char\<close> returns the sum over the positions \<open>i\<close> of
  the letter value times \<open>4 ^ (L - 1 - i)\<close>, a value from \<open>0\<close> to \<open>4 ^ L - 1\<close>, and two
  windows of valid letters with the same index have the same letter values at every
  position; if some letter of the window is outside the alphabet, it returns \<open>-1\<close>.
  The bound 15 is the largest length for which the 32-bit accumulators do not overflow.
\<close>

theorem oligo2index_char_encodes:
  assumes "1 \<le> L" and "L \<le> 15" and "pos + L \<le> length seq"
  shows "((\<forall>i<L. seq ! (pos + i) \<in> alphabet) \<longrightarrow>
            oligo2index_char seq (int pos) (int L) = Inr (encode_forward_spec seq pos L) \<and>
            0 \<le> encode_forward_spec seq pos L \<and> encode_forward_spec seq pos L < 4 ^ L \<and>
            (\<forall>seq' pos'. pos' + L \<le> length seq' \<and> (\<forall>i<L. seq' ! (pos' + i) \<in> alphabet) \<and>
                 oligo2index_char seq' (int pos') (int L) = oligo2index_char seq (int pos) (int L) \<longrightarrow>
               (\<forall>i<L. char2int (seq' ! (pos' + i)) = char2int (seq ! (pos + i))))) \<and>
         ((\<exists>i<L. seq ! (pos + i) \<notin> alphabet) \<longrightarrow>
            oligo2index_char seq (int pos) (int L) = Inr (-1))"
proof (intro conjI impI)
  assume "\<forall>i<L. seq ! (pos + i) \<in> alphabet"
  then have v: "\<forall>i<L. char2int (seq ! (pos + i)) \<noteq> -1"
    using char2int_alphabet by blast
  show e: "oligo2index_char seq (int pos) (int L) = Inr (encode_forward_spec seq pos L)"
    using oligo2index_char_valid [OF assms(2,3) v] .
  have b: "0 \<le> encode_forward_spec seq pos L \<and> encode_forward_spec seq pos L < 4 ^ L"
    using encode_forward_spec_bounds [OF assms(3) v] .
  show "0 \<le> encode_forward_spec seq pos L" using b by simp
  show "encode_forward_spec seq pos L < 4 ^ L" using b by simp
  show "\<forall>seq' pos'. pos' + L \<le> length seq' \<and> (\<forall>i<L. seq' ! (pos' + i) \<in> alphabet) \<and>
          oligo2index_char seq' (int pos') (int L) = oligo2index_char seq (int pos) (int L) \<longrightarrow>
        (\<forall>i<L. char2int (seq' ! (pos' + i)) = char2int (seq ! (pos + i)))"
  proof (intro allI, rule impI, elim conjE)
    fix seq' pos'
    assume a: "pos' + L \<le> length seq'" "\<forall>i<L. seq' ! (pos' + i) \<in> alphabet"
      "oligo2index_char seq' (int pos') (int L) = oligo2index_char seq (int pos) (int L)"
    have v': "\<forall>i<L. char2int (seq' ! (pos' + i)) \<noteq> -1"
      using a(2) char2int_alphabet by blast
    have "encode_forward_spec seq' pos' L = encode_forward_spec seq pos L"
      using oligo2index_char_valid [OF assms(2) a(1) v'] e a(3) by simp
    then show "\<forall>i<L. char2int (seq' ! (pos' + i)) = char2int (seq ! (pos + i))"
      using window_inj [OF assms(3) v a(1) v'] by simp
  qed
next
  assume "\<exists>i<L. seq ! (pos + i) \<notin> alphabet"
  then have "\<exists>i<L. char2int (seq ! (pos + i)) = -1"
    using char2int_alphabet by blast
  then show "oligo2index_char seq (int pos) (int L) = Inr (-1)"
    using fwd_loop_invalid [OF assms(3)] by (simp add: oligo2index_char_def)
qed

theorem oligo2index_char_encodes_witness:
  "oligo2index_char ''xACgT'' 1 4 = Inr 27 \<and> oligo2index_char ''xANGT'' 1 4 = Inr (-1)"
proof -
  have v: "\<forall>i<4. ''xACgT'' ! (1 + i) \<in> alphabet"
    by (simp add: all_less_4 alphabet_def)
  have w: "\<exists>i<4. ''xANGT'' ! (1 + i) \<notin> alphabet"
    by (intro exI [of _ 1]) (simp add: alphabet_def)
  have s: "encode_forward_spec ''xACgT'' 1 4 = 27"
    by (simp add: encode_forward_spec_def char2int_def numeral_eq_Suc)
  show ?thesis
    using oligo2index_char_encodes [of 4 1 "''xACgT''"] oligo2index_char_encodes [of 4 1 "''xANGT''"] v w s
    by simp
qed

text \<open>
  At length 16 the claim fails: the window of sixteen letters T has only valid letters, and
  the accumulator wraps around to \<open>-1\<close>, the failure value, which is not in the range from
  \<open>0\<close> to \<open>4 ^ 16 - 1\<close>.
\<close>

theorem oligo2index_char_overflow_counterexample:
  "oligo2index_char ''TTTTTTTTTTTTTTTT'' 0 16 = Inr (- 1) \<and> char2int CHR ''T'' = 3"
  by (simp add: oligo2index_char_def oligo2index_char_loop.simps char_at_def char2int_def int32_def)

section \<open>The likelihood\<close>

lemmas eval_simps = markov_P_def markov_P_loop.simps oligo2index_char_def
  oligo2index_char_loop.simps char_at_def cell_at_def char2int_def int32_def

text \<open>
  Claim C1 fails on the code. The first factor of \<^verbatim>\<open>markov_P\<close> is \<open>S\<close> at the index of the
  first \<open>length - 1\<close> letters, not of the first \<open>order\<close> letters. For the model of order 1
  and the sequence ACA of length 3, the code returns \<open>S[AC] * T[A,C] * T[C,A] = 1 / 64\<close>,
  where \<open>S[AC]\<close> is the cell of index 1, the one of the prefix C; the formula of the claim
  gives \<open>S[A] * T[A,C] * T[C,A] = 1 / 32\<close>.
\<close>

theorem markov_P_initial_prefix:
  "markov_P model_order1 ''ACA'' 0 3 = Inr (1 / 64) \<and>
   likelihood_spec model_order1 ''ACA'' 3 = 1 / 32"
proof -
  have a: "markov_P model_order1 ''ACA'' 0 3 = Inr (1 / 64)"
    by (simp add: eval_simps model_order1_def)
  have b: "likelihood_spec model_order1 ''ACA'' 3 = 1 / 32"
    by (simp add: likelihood_spec_def encode_forward_spec_def model_order1_def char2int_def
        numeral_eq_Suc)
  show ?thesis using a b by simp
qed

text \<open>
  Claim C4 fails on the code. With a model of order 2 and the window AN of length 2, the
  first factor is \<open>S\<close> at the index of the single letter A and the loop does not run: the
  letter N is never read and the result is \<open>1 / 16\<close>, not \<open>0\<close>. With the model of order 1
  and the window CCN of length 3, the first factor is read at index 5 of an \<open>S\<close> of four
  cells, outside the array.
\<close>

theorem markov_P_invalid_letter:
  "markov_P model_order2 ''AN'' 0 2 = Inr (1 / 16) \<and> char2int CHR ''N'' = -1 \<and>
   markov_P model_order1 ''CCN'' 0 3 = Inl OutOfBounds"
  by (simp add: eval_simps model_order1_def model_order2_def)

section \<open>The report\<close>

lemma report_line_None:
  assumes "report_line ext bg count rc count_only L i = Inr None"
  shows "0 \<le> i \<and> i < int (length (count_table count)) \<and> count_table count ! nat i = 0"
  using assms
  by (auto simp: report_line_def cell_at_def Let_def split: if_splits sum.splits)

lemma report_line_Some:
  assumes "report_line ext bg count rc count_only L i = Inr (Some l)"
  shows "0 \<le> i \<and> i < int (length (count_table count)) \<and> count_table count ! nat i \<noteq> 0"
  using assms
  by (auto simp: report_line_def cell_at_def Let_def split: if_splits sum.splits)

lemma report_line_enrich:
  assumes "report_line ext bg count rc False L i = Inr (Some l)"
  shows "\<exists>p e. background_p ext bg count rc L i = Inr p \<and>
           expected_occ ext (position_count count) p = Inr e \<and>
           col_exp_freq l = p \<and> col_exp_occ l = e \<and>
           col_occ l = count_table count ! nat i \<and>
           col_occ_P l = pbinom ext (count_table count ! nat i) (position_count count) p"
  using assms
  by (auto simp: report_line_def cell_at_def Let_def split: if_splits sum.splits)

lemma report_line_total:
  assumes "0 \<le> i" and "i < int (length (count_table count))"
    and "count_only \<or> (count_table count ! nat i \<noteq> 0 \<longrightarrow>
           (\<exists>p e. background_p ext bg count rc L i = Inr p \<and>
                  expected_occ ext (position_count count) p = Inr e))"
  shows "\<exists>r. report_line ext bg count rc count_only L i = Inr r"
proof -
  have rd: "cell_at (count_table count) i = Inr (count_table count ! nat i)"
    using assms(1,2) by (simp add: cell_at_def)
  show ?thesis
  proof (cases "count_table count ! nat i = 0")
    case True
    then show ?thesis by (simp add: report_line_def rd)
  next
    case False
    show ?thesis
    proof (cases count_only)
      case True
      then show ?thesis using False by (simp add: report_line_def rd Let_def)
    next
      case no: False
      then obtain p e where "background_p ext bg count rc L i = Inr p"
        "expected_occ ext (position_count count) p = Inr e"
        using assms(3) False by auto
      then show ?thesis using False no by (simp add: report_line_def rd Let_def)
    qed
  qed
qed

lemma report_loop_result:
  "report_loop ext bg count rc count_only L i out = Inr res \<Longrightarrow>
   map fst res = map fst out @ filter (\<lambda>j. count_table count ! nat j \<noteq> 0) [i..size_tab count - 1] \<and>
   (\<forall>x\<in>set res. x \<in> set out \<or> report_line ext bg count rc count_only L (fst x) = Inr (Some (snd x)))"
proof (induction ext bg count rc count_only L i out arbitrary: res rule: report_loop.induct)
  case (1 ext bg count rc count_only L i out)
  show ?case
  proof (cases "i < size_tab count")
    case False
    then have "res = out" using "1.prems" by (subst (asm) report_loop.simps) simp
    then show ?thesis using False by simp
  next
    case True
    then have up: "[i..size_tab count - 1] = i # [i + 1..size_tab count - 1]"
      by (simp add: upto_rec1)
    show ?thesis
    proof (cases "report_line ext bg count rc count_only L i")
      case (Inl e)
      then show ?thesis using "1.prems" True by (subst (asm) report_loop.simps) simp
    next
      case (Inr r)
      show ?thesis
      proof (cases r)
        case None
        have z: "count_table count ! nat i = 0"
          using report_line_None Inr None by blast
        have "report_loop ext bg count rc count_only L (i + 1) out = Inr res"
          using "1.prems" True Inr None by (subst (asm) report_loop.simps) simp
        then show ?thesis using "1.IH"(1) [OF True Inr None] up z by simp
      next
        case (Some l)
        have nz: "count_table count ! nat i \<noteq> 0"
          using report_line_Some Inr Some by blast
        have "report_loop ext bg count rc count_only L (i + 1) (out @ [(i, l)]) = Inr res"
          using "1.prems" True Inr Some by (subst (asm) report_loop.simps) simp
        then have "map fst res = map fst (out @ [(i, l)]) @
              filter (\<lambda>j. count_table count ! nat j \<noteq> 0) [i + 1..size_tab count - 1] \<and>
            (\<forall>x\<in>set res. x \<in> set (out @ [(i, l)]) \<or>
               report_line ext bg count rc count_only L (fst x) = Inr (Some (snd x)))"
          using "1.IH"(2) [OF True Inr Some] by simp
        then show ?thesis using up nz Inr Some by auto
      qed
    qed
  qed
qed

lemma report_loop_total:
  "\<forall>j. i \<le> j \<and> j < size_tab count \<longrightarrow> (\<exists>r. report_line ext bg count rc count_only L j = Inr r) \<Longrightarrow>
   \<exists>res. report_loop ext bg count rc count_only L i out = Inr res"
proof (induction ext bg count rc count_only L i out rule: report_loop.induct)
  case (1 ext bg count rc count_only L i out)
  show ?case
  proof (cases "i < size_tab count")
    case False
    then show ?thesis by (subst report_loop.simps) simp
  next
    case True
    then obtain r where r: "report_line ext bg count rc count_only L i = Inr r"
      using "1.prems" by auto
    have nx: "\<forall>j. i + 1 \<le> j \<and> j < size_tab count \<longrightarrow>
        (\<exists>r. report_line ext bg count rc count_only L j = Inr r)"
      using "1.prems" by simp
    show ?thesis
    proof (cases r)
      case None
      show ?thesis
        using "1.IH"(1) [OF True _ None nx] r None True
        by (subst report_loop.simps) simp
    next
      case (Some l)
      show ?thesis
        using "1.IH"(2) [OF True _ Some nx] r Some True
        by (subst report_loop.simps) simp
    qed
  qed
qed

lemma sorted_filter_upto: "sorted_wrt (<) (filter P [i..j])"
proof -
  have "sorted_wrt (<) [i..j]" by (simp add: sorted_wrt_upto)
  then show ?thesis by (rule sorted_wrt_filter)
qed


lemma round_half_even_int: "round_half_even (real_of_int n) = n"
  by (simp add: round_half_even_def)

lemma double_ulp_pos: "0 < double_ulp x"
  by (simp add: double_ulp_def)

lemma round_double_representable:
  assumes "x = real_of_int m * 2 powr real_of_int e" and "\<bar>m\<bar> < 2 ^ 53" and "- 1074 \<le> e"
  shows "round_double x = x"
proof (cases "m = 0")
  case True
  then show ?thesis using assms(1) by (simp add: round_double_def)
next
  case False
  define E where "E = max \<lfloor>log 2 \<bar>x\<bar>\<rfloor> (- 1022)"
  have xn: "x \<noteq> 0" using False assms(1) by simp
  have ax: "\<bar>x\<bar> = real_of_int \<bar>m\<bar> * 2 powr real_of_int e"
    using assms(1) by (simp add: abs_mult)
  have "real_of_int \<bar>m\<bar> < 2 ^ 53" using assms(2) by (metis of_int_less_numeral_power_cancel_iff)
  then have "real_of_int \<bar>m\<bar> < 2 powr 53" by simp
  then have "\<bar>x\<bar> < 2 powr 53 * 2 powr real_of_int e"
    using ax by simp
  then have lt: "\<bar>x\<bar> < 2 powr (real_of_int (e + 53))"
    by (simp add: powr_add add.commute)
  have "log 2 \<bar>x\<bar> < real_of_int (e + 53)"
    using lt xn by (simp add: log_less_iff)
  then have "\<lfloor>log 2 \<bar>x\<bar>\<rfloor> < e + 53" by linarith
  then have Ele: "E \<le> e + 52" using assms(3) by (simp add: E_def)
  define k where "k = nat (e + 52 - E)"
  have ke: "real_of_int e = real_of_int (E - 52) + real k" using Ele by (simp add: k_def)
  have u: "double_ulp x = 2 powr real_of_int (E - 52)" by (simp add: double_ulp_def E_def)
  have "x = real_of_int m * (2 powr real_of_int (E - 52) * 2 powr real k)"
    using assms(1) ke by (simp add: powr_add)
  then have x: "x = real_of_int (m * 2 ^ k) * double_ulp x"
    using u by (simp add: powr_realpow mult.assoc mult.commute)
  then have q: "x / double_ulp x = real_of_int (m * 2 ^ k)"
    using double_ulp_pos [of x] by (metis nonzero_mult_div_cancel_right less_irrefl)
  have r: "round_half_even (x / double_ulp x) = m * 2 ^ k"
    by (simp only: q round_half_even_int)
  have "round_double x = real_of_int (m * 2 ^ k) * double_ulp x"
    using xn by (simp only: round_double_def r if_False)
  then show ?thesis using x by simp
qed

lemma round_double_of_int: "\<bar>m\<bar> < 2 ^ 53 \<Longrightarrow> round_double (real_of_int m) = real_of_int m"
  using round_double_representable [of "real_of_int m" m 0] by simp

lemma round_double_half: "round_double (1 / 2) = 1 / 2"
  using round_double_representable [of "1 / 2" 1 "- 1"] by (simp add: powr_minus)

lemma round_double_third:
  "round_double (3 * (6004799503160661 / 18014398509481984)) = 1"
proof -
  define x :: real where "x = 3 * (6004799503160661 / 18014398509481984)"
  have xn: "x \<noteq> 0" by (simp add: x_def)
  have "\<lfloor>log 2 \<bar>x\<bar>\<rfloor> = - 1"
    unfolding x_def by (subst floor_log_eq_powr_iff) (simp_all add: powr_minus)
  then have u: "double_ulp x = 1 / 2 ^ 53"
    by (simp add: double_ulp_def powr_minus inverse_eq_divide)
  have q: "x / (1 / 2 ^ 53) = 9007199254740991 + 1 / 2" by (simp add: x_def)
  have r: "round_half_even (9007199254740991 + 1 / 2) = 9007199254740992"
    by (simp add: round_half_even_def)
  have "round_double x = real_of_int (round_half_even (x / double_ulp x)) * double_ulp x"
    using xn by (simp only: round_double_def if_False)
  also have "\<dots> = real_of_int 9007199254740992 * (1 / 2 ^ 53)"
    by (simp only: u q r)
  also have "\<dots> = 1" by simp
  finally show ?thesis by (simp only: x_def)
qed

lemma round_double_demo:
  "round_double 8 = 8" "round_double 1 = 1" "round_double 3 = 3"
  using round_double_of_int [of 8] round_double_of_int [of 1] round_double_of_int [of 3]
  by simp_all

text \<open>
  The rounding decides the integer: three times the \<^verbatim>\<open>double\<close> nearest to one third is
  less than 1 as a real, and is rounded to 1 as a \<^verbatim>\<open>double\<close>; the expected count is 1.
\<close>

lemma expected_occ_rounds_first:
  "expected_occ demo_externals 3 (6004799503160661 / 18014398509481984) = Inr 1"
  using round_double_third
  by (simp add: expected_occ_def double_to_long_def demo_externals_def round_double_demo)

lemmas report_simps = report_def report_loop.simps report_line_def background_p_def
  expected_occ_def double_to_long_def demo_externals_def demo_bg_def demo_count_def
  letter_spec_def reverse_complement_spec_def complement_spec_def
  round_double_demo round_double_half

lemma demo_run:
  "report demo_externals demo_bg demo_count True False 2 =
     Inr [(1, demo_line_AC), (3, demo_line_AT)]"
  by (simp add: report_simps eval_simps Let_def numeral_eq_Suc demo_line_AC_def demo_line_AT_def)



text \<open>
  Claim C7, amended. In enrichment mode, the expected count of every printed line is
  \<open>N * p\<close> as the program computes it, converted to a \<^verbatim>\<open>long\<close>: the position count is
  converted to a \<^verbatim>\<open>double\<close>, its product with the probability of the line is rounded to
  a \<^verbatim>\<open>double\<close>, and the fraction of that \<^verbatim>\<open>double\<close> is dropped (rounded towards zero).
\<close>

theorem expected_occ_truncated:
  assumes "report ext bg count rc False L = Inr out" and "(i, l) \<in> set out"
  shows "col_exp_occ l =
           (if 0 \<le> double_round ext
                      (double_round ext (real_of_int (position_count count)) * col_exp_freq l)
            then \<lfloor>double_round ext
                      (double_round ext (real_of_int (position_count count)) * col_exp_freq l)\<rfloor>
            else \<lceil>double_round ext
                      (double_round ext (real_of_int (position_count count)) * col_exp_freq l)\<rceil>)"
proof -
  have "(i, l) \<in> set [] \<or> report_line ext bg count rc False L (fst (i, l)) = Inr (Some (snd (i, l)))"
    using report_loop_result [of ext bg count rc False L 0 "[]" out] assms
    unfolding report_def by blast
  then have "report_line ext bg count rc False L i = Inr (Some l)" by simp
  then obtain p e where p: "expected_occ ext (position_count count) p = Inr e"
    "col_exp_freq l = p" "col_exp_occ l = e"
    using report_line_enrich by blast
  then show ?thesis
    by (auto simp: expected_occ_def double_to_long_def split: if_splits)
qed

theorem expected_occ_truncated_witness:
  "col_exp_occ demo_line_AC = 1 \<and> col_exp_occ demo_line_AT = 0"
proof -
  have r: "double_round demo_externals = round_double" by (simp add: demo_externals_def)
  have n: "position_count demo_count = 8" by (simp add: demo_count_def)
  have f: "col_exp_freq demo_line_AC = 1 / 8" "col_exp_freq demo_line_AT = 1 / 16"
    by (simp_all add: demo_line_AC_def demo_line_AT_def)
  have "col_exp_occ demo_line_AC =
      (if 0 \<le> round_double (round_double 8 * (1 / 8))
       then \<lfloor>round_double (round_double 8 * (1 / 8))\<rfloor>
       else \<lceil>round_double (round_double 8 * (1 / 8))\<rceil>)"
    using expected_occ_truncated [OF demo_run, of 1 demo_line_AC] by (simp add: r n f)
  moreover have "col_exp_occ demo_line_AT =
      (if 0 \<le> round_double (round_double 8 * (1 / 16))
       then \<lfloor>round_double (round_double 8 * (1 / 16))\<rfloor>
       else \<lceil>round_double (round_double 8 * (1 / 16))\<rceil>)"
    using expected_occ_truncated [OF demo_run, of 3 demo_line_AT] by (simp add: r n f)
  ultimately show ?thesis by (simp add: round_double_demo round_double_half)
qed

text \<open>
  The claim as stated fails on the example table: the line of AT has \<open>N = 8\<close> and
  \<open>p = 1 / 16\<close>, so \<open>N * p\<close> is one half, which the \<^verbatim>\<open>double\<close> product holds exactly, and
  the expected count printed is \<open>0\<close>.
\<close>

theorem expected_occ_not_exact_counterexample:
  "report demo_externals demo_bg demo_count True False 2 =
     Inr [(1, demo_line_AC), (3, demo_line_AT)] \<and>
   col_exp_occ demo_line_AT = 0 \<and>
   real_of_int (position_count demo_count) * col_exp_freq demo_line_AT = 1 / 2"
  using demo_run by (simp add: demo_line_AT_def demo_count_def)

text \<open>
  Claim C8. In both modes, when the table has a counter for every index below its size and
  no line faults, the report prints its lines in strictly ascending order of the index,
  one line for every index whose count is not zero and none for an index whose count is
  zero.
\<close>

theorem report_order_and_omission:
  assumes "size_tab count \<le> int (length (count_table count))"
    and "count_only \<or>
         (\<forall>i. 0 \<le> i \<and> i < size_tab count \<and> count_table count ! nat i \<noteq> 0 \<longrightarrow>
            (\<exists>p e. background_p ext bg count rc L i = Inr p \<and>
                   expected_occ ext (position_count count) p = Inr e))"
  shows "\<exists>out. report ext bg count rc count_only L = Inr out \<and>
           map fst out = filter (\<lambda>i. count_table count ! nat i \<noteq> 0) [0..size_tab count - 1] \<and>
           sorted_wrt (<) (map fst out)"
proof -
  have "\<forall>j. 0 \<le> j \<and> j < size_tab count \<longrightarrow>
          (\<exists>r. report_line ext bg count rc count_only L j = Inr r)"
  proof (intro allI impI)
    fix j assume j: "0 \<le> j \<and> j < size_tab count"
    then have "j < int (length (count_table count))" using assms(1) by simp
    moreover have "count_only \<or> (count_table count ! nat j \<noteq> 0 \<longrightarrow>
           (\<exists>p e. background_p ext bg count rc L j = Inr p \<and>
                  expected_occ ext (position_count count) p = Inr e))"
      using assms(2) j by blast
    ultimately show "\<exists>r. report_line ext bg count rc count_only L j = Inr r"
      using j report_line_total by blast
  qed
  then obtain out where out: "report ext bg count rc count_only L = Inr out"
    using report_loop_total [of 0 count ext bg rc count_only L "[]"]
    unfolding report_def by blast
  then have m: "map fst out = filter (\<lambda>i. count_table count ! nat i \<noteq> 0) [0..size_tab count - 1]"
    using report_loop_result [of ext bg count rc count_only L 0 "[]" out]
    unfolding report_def by simp
  then have "sorted_wrt (<) (map fst out)" using sorted_filter_upto by simp
  then show ?thesis using out m by blast
qed

theorem report_order_and_omission_witness:
  "report demo_externals demo_bg demo_count True True 2 =
     Inr [(1, Count_line ''AC'' ''AC|GT'' (Some (3 / 8)) 3),
          (3, Count_line ''AT'' ''AT|AT'' (Some (2 / 8)) 2)] \<and>
   filter (\<lambda>i. count_table demo_count ! nat i \<noteq> 0) [0..size_tab demo_count - 1] = [1, 3]"
proof -
  have r: "report demo_externals demo_bg demo_count True True 2 =
     Inr [(1, Count_line ''AC'' ''AC|GT'' (Some (3 / 8)) 3),
          (3, Count_line ''AT'' ''AT|AT'' (Some (2 / 8)) 2)]"
    by (simp add: report_simps cell_at_def Let_def numeral_eq_Suc)
  have s: "size_tab demo_count \<le> int (length (count_table demo_count))"
    by (simp add: demo_count_def)
  show ?thesis
    using report_order_and_omission [of demo_count True demo_externals demo_bg True 2, OF s] r
    by auto
qed

section \<open>Loading a model\<close>

lemma cell_at_in: "k < length a \<Longrightarrow> cell_at a (int k) = Inr (a ! k)"
  by (simp add: cell_at_def)

lemma cell_set_in: "k < length a \<Longrightarrow> cell_set a (int k) x = Inr (a[k := x])"
  by (simp add: cell_set_def)

lemma sum_cells_eq:
  "j \<le> hi \<Longrightarrow> hi \<le> length a \<Longrightarrow>
   sum_cells a (int j) (int hi) sm = Inr (sm + (\<Sum>i = j..<hi. a ! i))"
proof (induction "hi - j" arbitrary: j sm)
  case 0
  then have "j = hi" by simp
  then show ?case by (subst sum_cells.simps) simp
next
  case (Suc d)
  have lt: "j < hi" using Suc.hyps(2) by simp
  have rd: "cell_at a (int j) = Inr (a ! j)" using lt Suc.prems(2) by (simp add: cell_at_in)
  have ih: "sum_cells a (int j + 1) (int hi) (sm + a ! j) =
      Inr (sm + a ! j + (\<Sum>i = Suc j..<hi. a ! i))"
    using Suc.hyps(1) [of "Suc j" "sm + a ! j"] Suc.hyps(2) Suc.prems lt
    by (simp add: add.commute)
  have sp: "(\<Sum>i = j..<hi. a ! i) = a ! j + (\<Sum>i = Suc j..<hi. a ! i)"
    using lt by (simp add: sum.atLeast_Suc_lessThan)
  show ?case
    apply (subst sum_cells.simps)
    using lt rd ih sp by simp
qed

lemma divided_step:
  assumes "j < hi" and "hi \<le> length a"
  shows "divided (a[j := a ! j / sm]) (Suc j) hi sm = divided a j hi sm"
proof (rule nth_equalityI)
  show "length (divided (a[j := a ! j / sm]) (Suc j) hi sm) = length (divided a j hi sm)"
    by (simp add: divided_def)
next
  fix i assume "i < length (divided (a[j := a ! j / sm]) (Suc j) hi sm)"
  then have i: "i < length a" by (simp add: divided_def)
  show "divided (a[j := a ! j / sm]) (Suc j) hi sm ! i = divided a j hi sm ! i"
    using i assms by (auto simp: divided_def nth_list_update)
qed

lemma divide_cells_eq:
  "j \<le> hi \<Longrightarrow> hi \<le> length a \<Longrightarrow> sm \<noteq> 0 \<Longrightarrow>
   divide_cells a (int j) (int hi) sm = Inr (divided a j hi sm)"
proof (induction "hi - j" arbitrary: j a)
  case 0
  then have e: "j = hi" by simp
  have "divided a hi hi sm = a"
    by (rule nth_equalityI) (simp_all add: divided_def)
  then show ?case using e by (subst divide_cells.simps) simp
next
  case (Suc d)
  have lt: "j < hi" using Suc.hyps(2) by simp
  have jl: "j < length a" using lt Suc.prems(2) by simp
  have ih: "divide_cells (a[j := a ! j / sm]) (int j + 1) (int hi) sm =
      Inr (divided (a[j := a ! j / sm]) (Suc j) hi sm)"
    using Suc.hyps(1) [of "Suc j" "a[j := a ! j / sm]"] Suc.hyps(2) Suc.prems lt
    by (simp add: add.commute)
  show ?case
    apply (subst divide_cells.simps)
    using lt ih cell_at_in [OF jl] cell_set_in [OF jl] Suc.prems(3)
      divided_step [OF lt Suc.prems(2)]
    by simp
qed

lemma divide_cells_zero:
  "j < hi \<Longrightarrow> hi \<le> length a \<Longrightarrow> divide_cells a (int j) (int hi) 0 = Inl DivisionByZero"
  by (subst divide_cells.simps) (simp add: cell_at_in)

lemma row_sum_cells:
  assumes "4 * r + 4 \<le> length a"
  shows "sum_cells a (int (4 * r)) (int (4 * r) + 4) 0 = Inr (row_sum a r)"
proof -
  have "{4 * r..<4 * r + 4} = {4 * r, 4 * r + 1, 4 * r + 2, 4 * r + 3}" by auto
  then have "(\<Sum>i = 4 * r..<4 * r + 4. a ! i) = row_sum a r"
    by (simp add: row_sum_def)
  moreover have "int (4 * r) + 4 = int (4 * r + 4)" by simp
  ultimately show ?thesis
    using sum_cells_eq [of "4 * r" "4 * r + 4" a 0] assms by simp
qed

lemma row_sum_divided_later:
  assumes "r < q" and "4 * q + 4 \<le> length a"
  shows "row_sum (divided a (4 * r) (4 * r + 4) sm) q = row_sum a q"
  using assms by (simp add: row_sum_def divided_def)

lemma normalised_step:
  assumes "4 * r + 4 \<le> length a" and "length a = 4 * n"
  shows "normalised_from (divided a (4 * r) (4 * r + 4) (row_sum a r)) (Suc r) = normalised_from a r"
proof (rule nth_equalityI)
  show "length (normalised_from (divided a (4 * r) (4 * r + 4) (row_sum a r)) (Suc r)) =
        length (normalised_from a r)"
    by (simp add: normalised_from_def divided_def)
next
  fix i assume "i < length (normalised_from (divided a (4 * r) (4 * r + 4) (row_sum a r)) (Suc r))"
  then have i: "i < length a" by (simp add: normalised_from_def divided_def)
  let ?b = "divided a (4 * r) (4 * r + 4) (row_sum a r)"
  have b: "?b ! i = (if 4 * r \<le> i \<and> i < 4 * r + 4 then a ! i / row_sum a r else a ! i)"
    using i by (simp add: divided_def)
  show "normalised_from ?b (Suc r) ! i = normalised_from a r ! i"
  proof (cases "4 * Suc r \<le> i")
    case True
    then have q: "r < i div 4" by simp
    have "4 * (i div 4) + 4 \<le> length a" using i assms(2) by (simp add: div_less_iff_less_mult) presburger
    then have "row_sum ?b (i div 4) = row_sum a (i div 4)"
      using row_sum_divided_later [OF q] by simp
    then show ?thesis using True i b by (simp add: normalised_from_def divided_def)
  next
    case False
    show ?thesis
    proof (cases "4 * r \<le> i")
      case True
      then have "i div 4 = r" using False by simp
      then show ?thesis using True False i b by (simp add: normalised_from_def divided_def)
    next
      case lo: False
      then show ?thesis using False i b by (simp add: normalised_from_def divided_def)
    qed
  qed
qed

lemma normalise_rows_eq:
  "r \<le> n \<Longrightarrow> length a = 4 * n \<Longrightarrow>
   normalise_rows a (int (4 * r)) (int (4 * n)) =
     (if \<forall>q. r \<le> q \<and> q < n \<longrightarrow> row_sum a q \<noteq> 0 then Inr (normalised_from a r)
      else Inl DivisionByZero)"
proof (induction "n - r" arbitrary: r a)
  case 0
  then have e: "r = n" by simp
  have "normalised_from a n = a"
    using "0.prems"(2) by (intro nth_equalityI) (simp_all add: normalised_from_def)
  then show ?case using e by (subst normalise_rows.simps) simp
next
  case (Suc d)
  have lt: "r < n" using Suc.hyps(2) by simp
  have row: "4 * r + 4 \<le> length a" using lt Suc.prems(2) by simp
  have sm: "sum_cells a (int (4 * r)) (int (4 * r) + 4) 0 = Inr (row_sum a r)"
    using row_sum_cells [OF row] .
  have hi: "int (4 * r) + 4 = int (4 * r + 4)" "int (4 * r) + 4 = int (4 * Suc r)" by simp_all
  show ?case
  proof (cases "row_sum a r = 0")
    case True
    have "divide_cells a (int (4 * r)) (int (4 * r + 4)) 0 = Inl DivisionByZero"
      using row by (intro divide_cells_zero) simp_all
    then have "normalise_rows a (int (4 * r)) (int (4 * n)) = Inl DivisionByZero"
      using lt sm True hi by (subst normalise_rows.simps) simp
    moreover have "\<not> (\<forall>q. r \<le> q \<and> q < n \<longrightarrow> row_sum a q \<noteq> 0)"
      using True lt by auto
    ultimately show ?thesis by simp
  next
    case False
    let ?b = "divided a (4 * r) (4 * r + 4) (row_sum a r)"
    have dv: "divide_cells a (int (4 * r)) (int (4 * r + 4)) (row_sum a r) = Inr ?b"
      using row False by (intro divide_cells_eq) simp_all
    have lb: "length ?b = 4 * n" using Suc.prems(2) by (simp add: divided_def)
    have ih: "normalise_rows ?b (int (4 * Suc r)) (int (4 * n)) =
        (if \<forall>q. Suc r \<le> q \<and> q < n \<longrightarrow> row_sum ?b q \<noteq> 0 then Inr (normalised_from ?b (Suc r))
         else Inl DivisionByZero)"
      using Suc.hyps(1) [of "Suc r" ?b] Suc.hyps(2) lt lb by simp
    have rs: "row_sum ?b q = row_sum a q" if "Suc r \<le> q" "q < n" for q
      using that Suc.prems(2) by (intro row_sum_divided_later) simp_all
    have c: "(\<forall>q. Suc r \<le> q \<and> q < n \<longrightarrow> row_sum ?b q \<noteq> 0) =
             (\<forall>q. r \<le> q \<and> q < n \<longrightarrow> row_sum a q \<noteq> 0)"
      using rs False by (metis Suc_leI le_neq_implies_less not_less_eq_eq order_refl le_SucI Suc_le_lessD)
    have "normalise_rows a (int (4 * r)) (int (4 * n)) =
        normalise_rows ?b (int (4 * Suc r)) (int (4 * n))"
      using lt sm dv hi by (subst normalise_rows.simps) (simp add: add.commute)
    then show ?thesis
      using ih c normalised_step [OF row Suc.prems(2)] by simp
  qed
qed

lemma floor_1e100_pos: "0 < floor_1e100"
  by (simp add: floor_1e100_def)

lemma pow4_le: "k \<le> 14 \<Longrightarrow> (4::int) ^ k \<le> 268435456"
proof -
  assume "k \<le> 14"
  then have "(4::int) ^ k \<le> 4 ^ 14" by (intro power_increasing) simp_all
  then show ?thesis by simp
qed

lemma pow4_int_nat: "k \<le> 14 \<Longrightarrow> pow4_int (int k) = Inr (4 ^ k)"
  by (simp add: pow4_int_def)

lemma int32_pow4: "k \<le> 14 \<Longrightarrow> int32 (4 ^ k * 4) = 4 * 4 ^ k"
proof -
  assume k: "k \<le> 14"
  have "(0::int) < 4 ^ k" by simp
  then have "int32 (4 * 4 ^ k) = 4 * 4 ^ k"
    using pow4_le [OF k] by (intro int32_id) linarith+
  then show ?thesis by (simp only: mult.commute)
qed

lemma new_markov_fresh: "k \<le> 14 \<Longrightarrow> new_markov (int k) = Inr (fresh_model k)"
proof -
  assume k: "k \<le> 14"
  have "nat (4 * 4 ^ k) = 4 * 4 ^ k"
    by (metis nat_int of_nat_mult of_nat_numeral of_nat_power)
  moreover have "nat ((4::int) ^ k) = 4 ^ k"
    by (metis nat_int of_nat_numeral of_nat_power)
  ultimately show ?thesis
    using pow4_int_nat [OF k] int32_pow4 [OF k] by (simp add: new_markov_def fresh_model_def)
qed

lemma wf_fresh_model: "k \<le> 14 \<Longrightarrow> wf_model (fresh_model k) k"
  by (simp add: wf_model_def fresh_model_def)

lemma wf_line_ranges:
  assumes "wf_line k dl" and "k \<le> 14"
  shows "oligo2index_char (fst dl) 0 (int k) = Inr (int (line_prefix k dl))"
    and "line_prefix k dl < 4 ^ k"
    and "char_at (fst dl) (int k) = Inr (fst dl ! k)"
    and "char2int (fst dl ! k) = int (line_symbol k dl)"
    and "line_symbol k dl < 4"
proof -
  have len: "0 + k \<le> length (fst dl)" and v: "\<forall>i<k. char2int (fst dl ! (0 + i)) \<noteq> -1"
    using assms(1) by (simp_all add: wf_line_def)
  have b: "0 \<le> encode_forward_spec (fst dl) 0 k" "encode_forward_spec (fst dl) 0 k < 4 ^ k"
    using encode_forward_spec_bounds [OF len v] by simp_all
  have "oligo2index_char (fst dl) (int 0) (int k) = Inr (encode_forward_spec (fst dl) 0 k)"
    using assms(2) len v by (intro oligo2index_char_valid) simp_all
  then show "oligo2index_char (fst dl) 0 (int k) = Inr (int (line_prefix k dl))"
    using b by (simp add: line_prefix_def)
  have "int (line_prefix k dl) < int (4 ^ k)" using b by (simp add: line_prefix_def)
  then show "line_prefix k dl < 4 ^ k" by linarith
  show "char_at (fst dl) (int k) = Inr (fst dl ! k)"
    using assms(1) by (simp add: wf_line_def char_at_in)
  have "char2int (fst dl ! k) \<noteq> -1" using assms(1) by (simp add: wf_line_def)
  then have r: "0 \<le> char2int (fst dl ! k) \<and> char2int (fst dl ! k) \<le> 3"
    by (rule char2int_range)
  then show "char2int (fst dl ! k) = int (line_symbol k dl)" by (simp add: line_symbol_def)
  show "line_symbol k dl < 4" using r unfolding line_symbol_def by linarith
qed

lemma load_line_step:
  assumes "wf_model m k" and "wf_line k dl"
  shows "load_line (Some m) dl = Inr (line_step k m dl)"
proof -
  have k: "k \<le> 14" and o: "order m = int k" and lS: "length (S m) = 4 ^ k"
    and lT: "length (T m) = 4 * 4 ^ k"
    using assms(1) by (simp_all add: wf_model_def)
  note r = wf_line_ranges [OF assms(2) k]
  let ?p = "line_prefix k dl" and ?c = "line_symbol k dl"
  have pS: "?p < length (S m)" using r(2) lS by simp
  have cT: "line_cell k dl < length (T m)" using r(2,5) lT by (simp add: line_cell_def)
  have "int ?p < 4 ^ k" using r(2) by (metis of_nat_less_iff of_nat_numeral of_nat_power)
  then have pb: "4 * int ?p < 1073741824" using pow4_le [OF k] by linarith
  have i1: "int32 (4 * int ?p) = 4 * int ?p"
    using pb by (intro int32_id) linarith+
  have i2: "int32 (4 * int ?p + int ?c) = int (line_cell k dl)"
  proof -
    have "int32 (4 * int ?p + int ?c) = 4 * int ?p + int ?c"
      using pb r(5) by (intro int32_id) linarith+
    then show ?thesis by (simp add: line_cell_def)
  qed
  show ?thesis
    using r(1,3,4) o cell_at_in [OF pS] cell_set_in [OF pS] cell_set_in [OF cT] i1 i2
    by (simp add: load_line_def line_step_def)
qed

lemma S_line_step:
  "S (line_step k m dl) = (S m)[line_prefix k dl := S m ! line_prefix k dl + snd dl]"
  by (simp add: line_step_def)

lemma T_line_step: "T (line_step k m dl) = (T m)[line_cell k dl := snd dl]"
  by (simp add: line_step_def)

lemma wf_line_step: "wf_model m k \<Longrightarrow> wf_model (line_step k m dl) k"
  by (simp add: wf_model_def line_step_def)

lemma load_lines_fold:
  "wf_model m k \<Longrightarrow> \<forall>dl\<in>set dls. wf_line k dl \<Longrightarrow>
   load_lines (Some m) dls = Inr (Some (foldl (line_step k) m dls))"
proof (induction dls arbitrary: m)
  case Nil
  show ?case by simp
next
  case (Cons dl dls)
  have "load_line (Some m) dl = Inr (line_step k m dl)"
    using load_line_step Cons.prems by simp
  moreover have "load_lines (Some (line_step k m dl)) dls =
      Inr (Some (foldl (line_step k) (line_step k m dl) dls))"
    using Cons.IH [of "line_step k m dl"] wf_line_step Cons.prems by simp
  ultimately show ?case by simp
qed

lemma load_lines_start:
  assumes "dls \<noteq> []" and "k \<le> 14" and "\<forall>dl\<in>set dls. wf_line k dl"
  shows "load_lines None dls = Inr (Some (foldl (line_step k) (fresh_model k) dls))"
proof -
  obtain dl rest where d: "dls = dl # rest" using assms(1) by (cases dls) auto
  have "int (length (fst dl)) - 1 = int k" using assms(3) d by (simp add: wf_line_def)
  then have "load_line None dl = load_line (Some (fresh_model k)) dl"
    using new_markov_fresh [OF assms(2)] by (simp add: load_line_def)
  then have "load_lines None dls = load_lines (Some (fresh_model k)) dls"
    using d by simp
  then show ?thesis
    using load_lines_fold [OF wf_fresh_model [OF assms(2)] assms(3)] by simp
qed

lemma wf_fold: "wf_model m k \<Longrightarrow> wf_model (foldl (line_step k) m dls) k"
  by (induction dls arbitrary: m) (simp_all add: wf_line_step)

lemma fold_S_pos:
  "\<forall>dl\<in>set dls. 0 \<le> snd dl \<Longrightarrow> \<forall>i<length (S m). 0 < S m ! i \<Longrightarrow>
   \<forall>i<length (S m). 0 < S (foldl (line_step k) m dls) ! i"
proof (induction dls rule: rev_induct)
  case Nil
  then show ?case by simp
next
  case (snoc dl dls)
  let ?m = "foldl (line_step k) m dls"
  have ih: "\<forall>i<length (S m). 0 < S ?m ! i" using snoc by simp
  have len: "length (S ?m) = length (S m)"
    by (induction dls rule: rev_induct) (simp_all add: S_line_step)
  have f: "0 \<le> snd dl" using snoc.prems(1) by simp
  show ?case
  proof (intro allI impI)
    fix i assume i: "i < length (S m)"
    show "0 < S (foldl (line_step k) m (dls @ [dl])) ! i"
    proof (cases "i = line_prefix k dl")
      case True
      then have "S (line_step k ?m dl) ! i = S ?m ! i + snd dl"
        using i len by (simp add: S_line_step)
      moreover have "0 < S ?m ! i" using ih i by blast
      ultimately show ?thesis using f by simp
    next
      case False
      then have "S (line_step k ?m dl) ! i = S ?m ! i"
        by (simp add: S_line_step)
      then show ?thesis using ih i by simp
    qed
  qed
qed

lemma nth_update_any: "a[c := v] ! i = (if i = c \<and> c < length a then v else a ! i)"
proof (cases "c < length a")
  case True
  then show ?thesis by (auto simp: nth_list_update)
next
  case False
  then show ?thesis by (simp add: list_update_beyond)
qed

lemma fold_T_length: "length (T (foldl (line_step k) m dls)) = length (T m)"
  by (induction dls rule: rev_induct) (simp_all add: T_line_step)

lemma fold_T_nonneg:
  "\<forall>dl\<in>set dls. 0 \<le> snd dl \<Longrightarrow> \<forall>i<length (T m). 0 \<le> T m ! i \<Longrightarrow>
   \<forall>i<length (T m). 0 \<le> T (foldl (line_step k) m dls) ! i"
proof (induction dls rule: rev_induct)
  case Nil
  then show ?case by simp
next
  case (snoc dl dls)
  let ?m = "foldl (line_step k) m dls"
  have ih: "\<forall>i<length (T m). 0 \<le> T ?m ! i" using snoc by simp
  have f: "0 \<le> snd dl" using snoc.prems(1) by simp
  show ?case
    using ih f fold_T_length [of k m dls]
    by (simp add: T_line_step nth_update_any)
qed

lemma fold_T_unwritten:
  "\<forall>dl\<in>set dls. line_cell k dl \<noteq> j \<Longrightarrow> T (foldl (line_step k) m dls) ! j = T m ! j"
  by (induction dls rule: rev_induct) (simp_all add: T_line_step)

lemma fold_T_pos:
  "\<forall>dl\<in>set dls. line_cell k dl = j \<longrightarrow> 0 < snd dl \<Longrightarrow> j < length (T m) \<Longrightarrow> 0 < T m ! j \<Longrightarrow>
   0 < T (foldl (line_step k) m dls) ! j"
proof (induction dls rule: rev_induct)
  case Nil
  then show ?case by simp
next
  case (snoc dl dls)
  then show ?case
    using fold_T_length [of k m dls] by (simp add: T_line_step nth_update_any)
qed

lemma fold_T_written:
  "\<exists>dl\<in>set dls. line_cell k dl = j \<Longrightarrow> \<forall>dl\<in>set dls. line_cell k dl = j \<longrightarrow> f \<le> snd dl \<Longrightarrow>
   j < length (T m) \<Longrightarrow> f \<le> T (foldl (line_step k) m dls) ! j"
proof (induction dls rule: rev_induct)
  case Nil
  then show ?case by simp
next
  case (snoc dl dls)
  show ?case
  proof (cases "line_cell k dl = j")
    case True
    then show ?thesis
      using snoc.prems fold_T_length [of k m dls] by (simp add: T_line_step)
  next
    case False
    then have "\<exists>dl\<in>set dls. line_cell k dl = j" using snoc.prems(1) by auto
    then have "f \<le> T (foldl (line_step k) m dls) ! j" using snoc by simp
    then show ?thesis using False by (simp add: T_line_step)
  qed
qed

lemma line_cell_eq:
  assumes "wf_line k dl" and "k \<le> 14" and "c < 4"
  shows "line_cell k dl = 4 * p + c \<longleftrightarrow> line_prefix k dl = p \<and> line_symbol k dl = c"
  using wf_line_ranges(5) [OF assms(1,2)] assms(3) unfolding line_cell_def by presburger

lemma load_markov_eq:
  assumes "dls \<noteq> []" and "k \<le> 14" and "\<forall>dl\<in>set dls. wf_line k dl"
  shows "load_markov dls =
     (if (\<Sum>i = 0..<4 ^ k. S (foldl (line_step k) (fresh_model k) dls) ! i) = 0 \<or>
         \<not> (\<forall>q. 0 \<le> q \<and> q < 4 ^ k \<longrightarrow> row_sum (T (foldl (line_step k) (fresh_model k) dls)) q \<noteq> 0)
      then Inl DivisionByZero
      else Inr ((foldl (line_step k) (fresh_model k) dls)
             \<lparr>S := divided (S (foldl (line_step k) (fresh_model k) dls)) 0 (4 ^ k)
                    (\<Sum>i = 0..<4 ^ k. S (foldl (line_step k) (fresh_model k) dls) ! i),
              T := normalised_from (T (foldl (line_step k) (fresh_model k) dls)) 0\<rparr>))"
proof -
  let ?raw = "foldl (line_step k) (fresh_model k) dls"
  let ?tot = "\<Sum>i = 0..<4 ^ k. S ?raw ! i"
  have wf: "wf_model ?raw k" using wf_fold wf_fresh_model assms(2) by blast
  then have o: "order ?raw = int k" and lS: "length (S ?raw) = 4 ^ k"
    and lT: "length (T ?raw) = 4 * 4 ^ k"
    by (simp_all add: wf_model_def)
  have ld: "load_lines None dls = Inr (Some ?raw)"
    using load_lines_start [OF assms] .
  have pw: "pow4_int (order ?raw) = Inr (int (4 ^ k))"
    using pow4_int_nat [OF assms(2)] o by simp
  have sz: "int32 (int (4 ^ k) * 4) = int (4 * 4 ^ k)"
    using int32_pow4 [OF assms(2)] by simp
  have sm: "sum_cells (S ?raw) 0 (int (4 ^ k)) 0 = Inr ?tot"
    using sum_cells_eq [of 0 "4 ^ k" "S ?raw" 0] lS by simp
  have pos: "(0::nat) < 4 ^ k" by simp
  have dz: "divide_cells (S ?raw) 0 (int (4 ^ k)) 0 = Inl DivisionByZero"
    using divide_cells_zero [of 0 "4 ^ k" "S ?raw"] lS pos by simp
  have dv: "?tot \<noteq> 0 \<Longrightarrow>
      divide_cells (S ?raw) 0 (int (4 ^ k)) ?tot = Inr (divided (S ?raw) 0 (4 ^ k) ?tot)"
    using divide_cells_eq [of 0 "4 ^ k" "S ?raw" ?tot] lS by simp
  have nr: "normalise_rows (T ?raw) 0 (int (4 * 4 ^ k)) =
     (if \<forall>q. 0 \<le> q \<and> q < 4 ^ k \<longrightarrow> row_sum (T ?raw) q \<noteq> 0 then Inr (normalised_from (T ?raw) 0)
      else Inl DivisionByZero)"
    using normalise_rows_eq [of 0 "4 ^ k" "T ?raw"] lT by simp
  show ?thesis
  proof (cases "?tot = 0")
    case True
    then show ?thesis
      unfolding load_markov_def using ld pw sm dz by simp
  next
    case False
    then show ?thesis
      unfolding load_markov_def using ld pw sm dv [OF False] sz nr by simp
  qed
qed

lemma sum_lessThan_4: "(\<Sum>c<4::nat. g c) = g 0 + g 1 + g 2 + (g 3 :: real)"
  by (simp add: numeral_eq_Suc)

lemma row_sum_normalised:
  assumes "4 * q + 4 \<le> length a" and "row_sum a q \<noteq> 0"
  shows "(\<Sum>c<4. normalised_from a 0 ! (4 * q + c)) = 1"
proof -
  define r where "r = row_sum a q"
  have n: "normalised_from a 0 ! (4 * q + c) = a ! (4 * q + c) / r" if "c < 4" for c
    using that assms(1) by (simp add: normalised_from_def r_def)
  have d: "x0 / r + x1 / r + x2 / r + x3 / r = (x0 + x1 + x2 + x3) / r" for x0 x1 x2 x3 :: real
    by (simp add: add_divide_distrib)
  have "(\<Sum>c<4. normalised_from a 0 ! (4 * q + c)) =
      normalised_from a 0 ! (4 * q + 0) + normalised_from a 0 ! (4 * q + 1) +
      normalised_from a 0 ! (4 * q + 2) + normalised_from a 0 ! (4 * q + 3)"
    by (rule sum_lessThan_4)
  also have "\<dots> = a ! (4 * q + 0) / r + a ! (4 * q + 1) / r + a ! (4 * q + 2) / r +
      a ! (4 * q + 3) / r"
    using n [of 0] n [of 1] n [of 2] n [of 3] by simp
  also have "\<dots> = (a ! (4 * q + 0) + a ! (4 * q + 1) + a ! (4 * q + 2) + a ! (4 * q + 3)) / r"
    by (rule d)
  also have "\<dots> = r / r"
    by (simp add: r_def row_sum_def)
  finally show ?thesis using assms(2) by (simp add: r_def)
qed

lemma sum_list_divided:
  assumes "tot = (\<Sum>i = 0..<length a. a ! i)" and "tot \<noteq> 0"
  shows "sum_list (divided a 0 (length a) tot) = 1"
proof -
  have "sum_list (divided a 0 (length a) tot) = (\<Sum>i = 0..<length a. divided a 0 (length a) tot ! i)"
    using sum_list_sum_nth [of "divided a 0 (length a) tot"] by (simp add: divided_def)
  also have "\<dots> = (\<Sum>i = 0..<length a. a ! i / tot)"
    by (intro sum.cong) (simp_all add: divided_def)
  also have "\<dots> = (\<Sum>i = 0..<length a. a ! i) / tot"
    by (simp add: sum_divide_distrib)
  also have "\<dots> = tot / tot"
    by (simp only: assms(1) [symmetric])
  finally show ?thesis using assms(2) by simp
qed

lemma row_sum_nonneg_ge:
  assumes "4 * q + 4 \<le> length a" and "\<forall>i<length a. 0 \<le> a ! i" and "c < 4"
  shows "a ! (4 * q + c) \<le> row_sum a q"
proof -
  have n: "0 \<le> a ! (4 * q)" "0 \<le> a ! (4 * q + 1)" "0 \<le> a ! (4 * q + 2)" "0 \<le> a ! (4 * q + 3)"
    using assms(1,2) by simp_all
  have "c = 0 \<or> c = 1 \<or> c = 2 \<or> c = 3" using assms(3) by linarith
  then show ?thesis using n by (auto simp: row_sum_def)
qed

lemma raw_S_total_pos:
  assumes "k \<le> 14" and "\<forall>dl\<in>set dls. 0 \<le> snd dl"
  shows "0 < (\<Sum>i = 0..<4 ^ k. S (foldl (line_step k) (fresh_model k) dls) ! i)"
proof -
  let ?raw = "foldl (line_step k) (fresh_model k) dls"
  have l0: "length (S (fresh_model k)) = 4 ^ k" by (simp add: fresh_model_def)
  have "\<forall>i<length (S (fresh_model k)). 0 < S (fresh_model k) ! i"
    using floor_1e100_pos by (simp add: fresh_model_def)
  then have "\<forall>i<length (S (fresh_model k)). 0 < S ?raw ! i"
    using fold_S_pos [OF assms(2)] by blast
  then have p: "\<And>i. i \<in> {0..<4 ^ k} \<Longrightarrow> 0 < S ?raw ! i" using l0 by simp
  have "{0..<(4::nat) ^ k} \<noteq> {}" by simp
  then show ?thesis using p by (intro sum_pos) simp_all
qed

lemma raw_T_nonneg:
  assumes "\<forall>dl\<in>set dls. 0 \<le> snd dl"
  shows "\<forall>i<4 * 4 ^ k. 0 \<le> T (foldl (line_step k) (fresh_model k) dls) ! i"
proof -
  have "\<forall>i<length (T (fresh_model k)). 0 \<le> T (fresh_model k) ! i"
    using floor_1e100_pos by (simp add: fresh_model_def less_imp_le)
  then have "\<forall>i<length (T (fresh_model k)). 0 \<le> T (foldl (line_step k) (fresh_model k) dls) ! i"
    using fold_T_nonneg [OF assms] by blast
  then show ?thesis by (simp add: fresh_model_def)
qed

lemma raw_row_sum_pos:
  assumes "\<forall>dl\<in>set dls. 0 \<le> snd dl" and "q < 4 ^ k" and "c < 4"
    and "0 < T (foldl (line_step k) (fresh_model k) dls) ! (4 * q + c)"
  shows "0 < row_sum (T (foldl (line_step k) (fresh_model k) dls)) q"
proof -
  let ?a = "T (foldl (line_step k) (fresh_model k) dls)"
  have len: "length ?a = 4 * 4 ^ k" by (simp add: fold_T_length fresh_model_def)
  then have row: "4 * q + 4 \<le> length ?a" using assms(2) by simp
  have "\<forall>i<length ?a. 0 \<le> ?a ! i" using raw_T_nonneg [OF assms(1)] len by simp
  then have "?a ! (4 * q + c) \<le> row_sum ?a q"
    using row assms(3) by (intro row_sum_nonneg_ge) simp_all
  then show ?thesis using assms(4) by linarith
qed

lemma wf_line_int:
  assumes "wf_line k dl" and "k \<le> 14"
  shows "encode_forward_spec (fst dl) 0 k = int (line_prefix k dl)"
    and "char2int (fst dl ! k) = int (line_symbol k dl)"
proof -
  have len: "0 + k \<le> length (fst dl)" and v: "\<forall>i<k. char2int (fst dl ! (0 + i)) \<noteq> -1"
    using assms(1) by (simp_all add: wf_line_def)
  show "encode_forward_spec (fst dl) 0 k = int (line_prefix k dl)"
    using encode_forward_spec_bounds [OF len v] by (simp add: line_prefix_def)
  show "char2int (fst dl ! k) = int (line_symbol k dl)"
    using wf_line_ranges(4) [OF assms] .
qed

lemma line_cell_pair:
  assumes "wf_line k dl" and "k \<le> 14" and "c < 4"
  shows "line_cell k dl = 4 * p + c \<longleftrightarrow>
         encode_forward_spec (fst dl) 0 k = int p \<and> char2int (fst dl ! k) = int c"
  using line_cell_eq [OF assms] wf_line_int [OF assms(1,2)] by simp

lemma raw_T_fresh_cell:
  "j < 4 * 4 ^ k \<Longrightarrow> T (fresh_model k) ! j = floor_1e100"
  by (simp add: fresh_model_def)

text \<open>
  Claim C3, amended. For a file of at least one data line whose identifiers all have
  \<open>k + 1\<close> letters of the alphabet (\<open>k\<close> at most 14), whose frequencies are not negative,
  and in which no prefix has its four transitions all listed with the frequency zero
  (for every prefix there is a letter such that every line for that pair has a positive
  frequency, which is so when the pair is on no line), \<^verbatim>\<open>load_markov\<close> returns a model
  of order \<open>k\<close> in which the four entries of every row of \<open>T\<close> sum to 1 and the entries of
  \<open>S\<close> sum to 1, in exact arithmetic.
\<close>

theorem load_markov_normalised:
  assumes "dls \<noteq> []" and "k \<le> 14"
    and "\<forall>dl\<in>set dls. length (fst dl) = Suc k \<and> set (fst dl) \<subseteq> alphabet"
    and "\<forall>dl\<in>set dls. 0 \<le> snd dl"
    and "\<forall>p<4 ^ k. \<exists>c<4. \<forall>dl\<in>set dls.
           encode_forward_spec (fst dl) 0 k = int p \<and> char2int (fst dl ! k) = int c \<longrightarrow> 0 < snd dl"
  shows "\<exists>m. load_markov dls = Inr m \<and> order m = int k \<and>
           length (S m) = 4 ^ k \<and> length (T m) = 4 * 4 ^ k \<and>
           (\<forall>p<4 ^ k. (\<Sum>c<4. T m ! (4 * p + c)) = 1) \<and> sum_list (S m) = 1"
proof -
  let ?raw = "foldl (line_step k) (fresh_model k) dls"
  let ?tot = "\<Sum>i = 0..<4 ^ k. S ?raw ! i"
  let ?m = "?raw\<lparr>S := divided (S ?raw) 0 (4 ^ k) ?tot, T := normalised_from (T ?raw) 0\<rparr>"
  have wfl: "\<forall>dl\<in>set dls. wf_line k dl"
    using assms(3) char2int_alphabet by (auto simp: wf_line_def)
  have wf: "wf_model ?raw k" using wf_fold wf_fresh_model assms(2) by blast
  then have o: "order ?raw = int k" and lS: "length (S ?raw) = 4 ^ k"
    and lT: "length (T ?raw) = 4 * 4 ^ k"
    by (simp_all add: wf_model_def)
  have tot: "?tot \<noteq> 0" using raw_S_total_pos [OF assms(2,4)] by simp
  have rows: "row_sum (T ?raw) q \<noteq> 0" if q: "q < 4 ^ k" for q
  proof -
    obtain c where c: "c < 4" "\<forall>dl\<in>set dls.
        encode_forward_spec (fst dl) 0 k = int q \<and> char2int (fst dl ! k) = int c \<longrightarrow> 0 < snd dl"
      using assms(5) q by blast
    have j: "4 * q + c < length (T (fresh_model k))" using q c(1) by (simp add: fresh_model_def)
    have "\<forall>dl\<in>set dls. line_cell k dl = 4 * q + c \<longrightarrow> 0 < snd dl"
      using c(2) wfl line_cell_pair [OF _ assms(2) c(1)] by blast
    moreover have "0 < T (fresh_model k) ! (4 * q + c)"
      using j floor_1e100_pos by (simp add: fresh_model_def)
    ultimately have "0 < T ?raw ! (4 * q + c)"
      using j by (intro fold_T_pos) simp_all
    then have "0 < row_sum (T ?raw) q"
      using raw_row_sum_pos [OF assms(4) q c(1)] by simp
    then show ?thesis by simp
  qed
  have ld: "load_markov dls = Inr ?m"
    using load_markov_eq [OF assms(1,2) wfl] tot rows by simp
  have r1: "(\<Sum>c<4. T ?m ! (4 * p + c)) = 1" if p: "p < 4 ^ k" for p
  proof -
    have "4 * p + 4 \<le> length (T ?raw)" using p lT by simp
    then show ?thesis using row_sum_normalised rows [OF p] by simp
  qed
  have r2: "sum_list (S ?m) = 1"
    using sum_list_divided [of ?tot "S ?raw"] tot lS by simp
  have "order ?m = int k \<and> length (S ?m) = 4 ^ k \<and> length (T ?m) = 4 * 4 ^ k"
    using o lS lT by (simp add: divided_def normalised_from_def)
  then show ?thesis using ld r1 r2 by blast
qed

lemmas load_simps = load_markov_def load_line_def new_markov_def pow4_int_def int32_def
  oligo2index_char_def oligo2index_char_loop.simps char_at_def cell_at_def cell_set_def
  char2int_def sum_cells.simps divide_cells.simps normalise_rows.simps floor_1e100_def

theorem load_markov_normalised_witness:
  "\<exists>m. load_markov [(''AA'', 1 / 2), (''AC'', 0), (''CG'', 1 / 2)] = Inr m \<and>
       (\<Sum>c<4. T m ! (4 * 0 + c)) = 1 \<and> sum_list (S m) = 1"
proof -
  let ?dls = "[(''AA'', 1 / 2), (''AC'', 0), (''CG'', 1 / 2 :: real)]"
  have h3: "\<forall>dl\<in>set ?dls. length (fst dl) = Suc 1 \<and> set (fst dl) \<subseteq> alphabet"
    by (simp add: alphabet_def)
  have h4: "\<forall>dl\<in>set ?dls. 0 \<le> snd dl" by simp
  have h5: "\<forall>p<4 ^ 1. \<exists>c<4. \<forall>dl\<in>set ?dls.
      encode_forward_spec (fst dl) 0 1 = int p \<and> char2int (fst dl ! 1) = int c \<longrightarrow> 0 < snd dl"
    by (intro allI impI exI [of _ 0]) (simp add: char2int_def)
  obtain m where m: "load_markov ?dls = Inr m"
    "\<forall>p<4 ^ 1. (\<Sum>c<4. T m ! (4 * p + c)) = 1" "sum_list (S m) = 1"
    using load_markov_normalised [of ?dls 1, OF _ _ h3 h4 h5] by auto
  have "(0::nat) < 4 ^ 1" by simp
  with m(2) have "(\<Sum>c<4. T m ! (4 * 0 + c)) = 1" by blast
  then show ?thesis using m(1,3) by blast
qed

text \<open>
  The claim as stated fails on a file that lists the four transitions of the prefix A with
  the frequency zero: the row of A is overwritten with zeros, its sum is zero, and the
  division of the row by its sum is a division by zero. The C code stores NaN in the row
  and returns the model.
\<close>

theorem load_markov_zero_row_counterexample:
  "load_markov [(''AA'', 0), (''AC'', 0), (''AG'', 0), (''AT'', 0)] = Inl DivisionByZero"
  by (simp add: load_simps numeral_eq_Suc)

text \<open>
  Claim C9, amended. For a file of at least one data line whose identifiers all have
  \<open>k + 1\<close> letters of the alphabet (\<open>k\<close> at most 14) and whose frequencies are not
  negative, if \<^verbatim>\<open>load_markov\<close> returns a model, then for every pair of a prefix and a
  letter that is on no data line the entry of \<open>T\<close> is strictly positive, never zero.
  It is near zero when the row has a listed transition of some size: it is at most
  \<open>1e-100 / f\<close> when another letter of the same prefix is listed, every time with a
  frequency of at least \<open>f > 0\<close>. When no transition of the prefix is listed at all, it
  is exactly one quarter.
\<close>

theorem unlisted_transition_positive:
  assumes "dls \<noteq> []" and "k \<le> 14"
    and "\<forall>dl\<in>set dls. length (fst dl) = Suc k \<and> set (fst dl) \<subseteq> alphabet"
    and "\<forall>dl\<in>set dls. 0 \<le> snd dl"
    and "load_markov dls = Inr m"
    and "p < 4 ^ k" and "c < 4"
    and "\<forall>dl\<in>set dls.
           \<not> (encode_forward_spec (fst dl) 0 k = int p \<and> char2int (fst dl ! k) = int c)"
  shows "0 < T m ! (4 * p + c) \<and>
         (\<forall>(c'::nat)<4. \<forall>f::real. 0 < f \<and>
             (\<exists>dl\<in>set dls. encode_forward_spec (fst dl) 0 k = int p \<and>
                            char2int (fst dl ! k) = int c') \<and>
             (\<forall>dl\<in>set dls. encode_forward_spec (fst dl) 0 k = int p \<and>
                            char2int (fst dl ! k) = int c' \<longrightarrow> f \<le> snd dl) \<longrightarrow>
             T m ! (4 * p + c) \<le> floor_1e100 / f) \<and>
         ((\<forall>dl\<in>set dls. encode_forward_spec (fst dl) 0 k \<noteq> int p) \<longrightarrow>
             T m ! (4 * p + c) = 1 / 4)"
proof -
  let ?raw = "foldl (line_step k) (fresh_model k) dls"
  let ?a = "T ?raw"
  have wfl: "\<forall>dl\<in>set dls. wf_line k dl"
    using assms(3) char2int_alphabet by (auto simp: wf_line_def)
  have lT: "length ?a = 4 * 4 ^ k" by (simp add: fold_T_length fresh_model_def)
  have row: "4 * p + 4 \<le> length ?a" using assms(6) lT by simp
  have j: "4 * p + c < 4 * 4 ^ k" using assms(6,7) by simp
  have m: "T m = normalised_from ?a 0"
    using load_markov_eq [OF assms(1,2) wfl] assms(5) by (auto split: if_splits)
  have unl: "\<forall>dl\<in>set dls. line_cell k dl \<noteq> 4 * p + c"
    using assms(8) wfl line_cell_pair [OF _ assms(2,7)] by blast
  have cell: "?a ! (4 * p + c) = floor_1e100"
    using fold_T_unwritten [OF unl] raw_T_fresh_cell [OF j] by simp
  have rs: "0 < row_sum ?a p"
    using raw_row_sum_pos [OF assms(4,6,7)] cell floor_1e100_pos by simp
  have val: "T m ! (4 * p + c) = floor_1e100 / row_sum ?a p"
    using m cell j lT assms(7) by (simp add: normalised_from_def)
  have nonneg: "\<forall>i<length ?a. 0 \<le> ?a ! i" using raw_T_nonneg [OF assms(4)] lT by simp
  show ?thesis
  proof (intro conjI allI impI)
    show "0 < T m ! (4 * p + c)" using val rs floor_1e100_pos by simp
  next
    fix c' :: nat and f :: real
    assume c': "c' < 4"
    assume h: "0 < f \<and>
        (\<exists>dl\<in>set dls. encode_forward_spec (fst dl) 0 k = int p \<and> char2int (fst dl ! k) = int c') \<and>
        (\<forall>dl\<in>set dls. encode_forward_spec (fst dl) 0 k = int p \<and> char2int (fst dl ! k) = int c'
           \<longrightarrow> f \<le> snd dl)"
    have ex: "\<exists>dl\<in>set dls. line_cell k dl = 4 * p + c'"
      using h wfl line_cell_pair [OF _ assms(2) c'] by blast
    have al: "\<forall>dl\<in>set dls. line_cell k dl = 4 * p + c' \<longrightarrow> f \<le> snd dl"
      using h wfl line_cell_pair [OF _ assms(2) c'] by blast
    have j': "4 * p + c' < length (T (fresh_model k))"
      using assms(6) c' by (simp add: fresh_model_def)
    have "f \<le> ?a ! (4 * p + c')" using fold_T_written [OF ex al j'] .
    moreover have "?a ! (4 * p + c') \<le> row_sum ?a p"
      using row_sum_nonneg_ge [OF row nonneg c'] .
    ultimately have "f \<le> row_sum ?a p" by linarith
    then have "floor_1e100 / row_sum ?a p \<le> floor_1e100 / f"
      using h floor_1e100_pos by (intro divide_left_mono) simp_all
    then show "T m ! (4 * p + c) \<le> floor_1e100 / f" using val by simp
  next
    assume none: "\<forall>dl\<in>set dls. encode_forward_spec (fst dl) 0 k \<noteq> int p"
    have "?a ! (4 * p + c') = floor_1e100" if c': "c' < 4" for c' :: nat
    proof -
      have "\<forall>dl\<in>set dls. line_cell k dl \<noteq> 4 * p + c'"
        using none wfl line_cell_pair [OF _ assms(2) c'] by blast
      moreover have "4 * p + c' < 4 * 4 ^ k" using assms(6) c' by simp
      ultimately show ?thesis
        using fold_T_unwritten [of dls k "4 * p + c'" "fresh_model k"] raw_T_fresh_cell by simp
    qed
    from this [of 0] this [of 1] this [of 2] this [of 3]
    have "row_sum ?a p = 4 * floor_1e100" by (simp add: row_sum_def)
    then show "T m ! (4 * p + c) = 1 / 4" using val floor_1e100_pos by simp
  qed
qed

theorem unlisted_transition_positive_witness:
  "\<exists>m. load_markov [(''AA'', 1 / 2)] = Inr m \<and> 0 < T m ! (4 * 0 + 1) \<and>
       T m ! (4 * 0 + 1) \<le> floor_1e100 / (1 / 2) \<and> T m ! (4 * 2 + 1) = 1 / 4"
proof -
  let ?dls = "[(''AA'', 1 / 2 :: real)]"
  obtain m where m: "load_markov ?dls = Inr m"
    by (simp add: load_simps numeral_eq_Suc)
  have h3: "\<forall>dl\<in>set ?dls. length (fst dl) = Suc 1 \<and> set (fst dl) \<subseteq> alphabet"
    by (simp add: alphabet_def)
  have h4: "\<forall>dl\<in>set ?dls. 0 \<le> snd dl" by simp
  have e: "encode_forward_spec ''AA'' 0 1 = 0" "char2int (''AA'' ! 1) = 0"
    by (simp_all add: encode_forward_spec_def char2int_def)
  have u1: "\<forall>dl\<in>set ?dls.
      \<not> (encode_forward_spec (fst dl) 0 1 = int 0 \<and> char2int (fst dl ! 1) = int 1)"
    using e by simp
  have u2: "\<forall>dl\<in>set ?dls.
      \<not> (encode_forward_spec (fst dl) 0 1 = int 2 \<and> char2int (fst dl ! 1) = int 1)"
    using e by simp
  note a = unlisted_transition_positive [of ?dls 1 m 0 1, OF _ _ h3 h4 m _ _ u1]
  note b = unlisted_transition_positive [of ?dls 1 m 2 1, OF _ _ h3 h4 m _ _ u2]
  have a1: "0 < T m ! (4 * 0 + 1)" using a by simp
  have "(0::real) < 1 / 2 \<and>
        (\<exists>dl\<in>set ?dls. encode_forward_spec (fst dl) 0 1 = int 0 \<and> char2int (fst dl ! 1) = int 0) \<and>
        (\<forall>dl\<in>set ?dls. encode_forward_spec (fst dl) 0 1 = int 0 \<and> char2int (fst dl ! 1) = int 0
           \<longrightarrow> 1 / 2 \<le> snd dl)"
    using e by simp
  moreover have "\<forall>(c'::nat)<4. \<forall>f::real. 0 < f \<and>
             (\<exists>dl\<in>set ?dls. encode_forward_spec (fst dl) 0 1 = int 0 \<and>
                            char2int (fst dl ! 1) = int c') \<and>
             (\<forall>dl\<in>set ?dls. encode_forward_spec (fst dl) 0 1 = int 0 \<and>
                            char2int (fst dl ! 1) = int c' \<longrightarrow> f \<le> snd dl) \<longrightarrow>
             T m ! (4 * 0 + 1) \<le> floor_1e100 / f"
    using a by simp
  ultimately have a2: "T m ! (4 * 0 + 1) \<le> floor_1e100 / (1 / 2)"
    by (metis zero_less_numeral)
  have "\<forall>dl\<in>set ?dls. encode_forward_spec (fst dl) 0 1 \<noteq> int 2" using e by simp
  then have b1: "T m ! (4 * 2 + 1) = 1 / 4" using b by simp
  show ?thesis using m a1 a2 b1 by blast
qed

text \<open>
  The claim as stated fails on the file of the single line AA with the frequency one
  half: no transition of the prefix C is listed, so its row is four times the floor, and
  the entry from C to A of the loaded model is one quarter, not a value near zero.
  It also fails on a file that \<^verbatim>\<open>load_markov\<close> reads without a fault although it is not
  well formed. The line CN with the frequency zero writes the cell before the row of C,
  which is the entry from A to T: that pair is on no line and its entry is exactly zero.
\<close>

theorem unlisted_transition_counterexample:
  "loaded_transition [(''AA'', 1 / 2)] 1 0 = Inr (1 / 4) \<and>
   loaded_transition [(''CN'', 0)] 0 3 = Inr 0"
  by (simp add: loaded_transition_def load_simps numeral_eq_Suc)

section \<open>The offset of the likelihood\<close>

lemma markov_P_loop_closed:
  assumes "order m = int k" and "k \<le> 14" and "length (T m) = 4 * 4 ^ k"
    and "L \<le> length seq" and "\<forall>i<L. char2int (seq ! i) \<noteq> -1" and "k \<le> j"
  shows "markov_P_loop m seq (int L) (int j) p =
     Inr (p * (\<Prod>i = j..<L.
        T m ! nat (4 * encode_forward_spec seq (i - k) k + char2int (seq ! i))))"
  using assms(6)
proof (induction "L - j" arbitrary: j p)
  case 0
  then have "L \<le> j" by simp
  then show ?case by (subst markov_P_loop.simps) simp
next
  case (Suc d)
  have jl: "j < L" using Suc.hyps(2) by simp
  have js: "j < length seq" using jl assms(4) by simp
  have rd: "char_at seq (int j) = Inr (seq ! j)" using js by (rule char_at_in)
  have sym: "0 \<le> char2int (seq ! j) \<and> char2int (seq ! j) \<le> 3"
    using assms(5) jl by (intro char2int_range) simp
  have w1: "(j - k) + k \<le> length seq" using Suc.prems js by simp
  have w2: "\<forall>i<k. char2int (seq ! ((j - k) + i)) \<noteq> -1"
    using assms(5) jl Suc.prems by simp
  have k15: "k \<le> 15" using assms(2) by simp
  have enc: "oligo2index_char seq (int (j - k)) (int k) = Inr (encode_forward_spec seq (j - k) k)"
    using oligo2index_char_valid [OF k15 w1 w2] .
  have ij: "int j - int k = int (j - k)" using Suc.prems by simp
  have enc': "oligo2index_char seq (int j - int k) (int k) = Inr (encode_forward_spec seq (j - k) k)"
    using enc by (simp only: ij)
  have b: "0 \<le> encode_forward_spec seq (j - k) k" "encode_forward_spec seq (j - k) k < 4 ^ k"
    using encode_forward_spec_bounds [OF w1 w2] by simp_all
  let ?e = "encode_forward_spec seq (j - k) k"
  let ?c = "char2int (seq ! j)"
  have p4: "(4::int) ^ k \<le> 268435456" using pow4_le [OF assms(2)] .
  have i1: "int32 (4 * ?e) = 4 * ?e" using b p4 by (intro int32_id) linarith+
  have i2: "int32 (4 * ?e + ?c) = 4 * ?e + ?c" using b p4 sym by (intro int32_id) linarith+
  have "4 * ?e + ?c < 4 * 4 ^ k" using b sym by linarith
  moreover have "int (length (T m)) = 4 * 4 ^ k" using assms(3) by simp
  ultimately have cl: "cell_at (T m) (4 * ?e + ?c) = Inr (T m ! nat (4 * ?e + ?c))"
    using b sym by (simp add: cell_at_def)
  have ih: "markov_P_loop m seq (int L) (int j + 1) (p * T m ! nat (4 * ?e + ?c)) =
     Inr (p * T m ! nat (4 * ?e + ?c) * (\<Prod>i = Suc j..<L.
        T m ! nat (4 * encode_forward_spec seq (i - k) k + char2int (seq ! i))))"
    using Suc.hyps(1) [of "Suc j" "p * T m ! nat (4 * ?e + ?c)"] Suc.hyps(2) Suc.prems
    by (simp add: add.commute)
  have pr: "(\<Prod>i = j..<L. T m ! nat (4 * encode_forward_spec seq (i - k) k + char2int (seq ! i))) =
      T m ! nat (4 * ?e + ?c) * (\<Prod>i = Suc j..<L.
        T m ! nat (4 * encode_forward_spec seq (i - k) k + char2int (seq ! i)))"
    using jl by (simp add: prod.atLeast_Suc_lessThan)
  have ne: "?c \<noteq> -1" "?e \<noteq> -1" using sym b by simp_all
  show ?case
    apply (subst markov_P_loop.simps)
    using jl rd enc' assms(1) ne i1 i2 cl ih pr by (simp add: mult.assoc)
qed

lemma markov_P_closed:
  assumes "order m = int k" and "k \<le> 14" and "length (T m) = 4 * 4 ^ k"
    and "1 \<le> L" and "L \<le> 16" and "L \<le> length seq" and "pos + (L - 1) \<le> length seq"
    and "\<forall>i<L. seq ! i \<in> alphabet" and "\<forall>i<L - 1. seq ! (pos + i) \<in> alphabet"
    and "nat (encode_forward_spec seq pos (L - 1)) < length (S m)"
  shows "markov_P m seq (int pos) (int L) =
     Inr (S m ! nat (encode_forward_spec seq pos (L - 1)) *
          (\<Prod>i = k..<L.
             T m ! nat (4 * encode_forward_spec seq (i - k) k + char2int (seq ! i))))"
proof -
  have v0: "\<forall>i<L. char2int (seq ! i) \<noteq> -1" using assms(8) char2int_alphabet by blast
  have v1: "\<forall>i<L - 1. char2int (seq ! (pos + i)) \<noteq> -1"
    using assms(9) char2int_alphabet by blast
  have l15: "L - 1 \<le> 15" using assms(5) by simp
  have enc: "oligo2index_char seq (int pos) (int (L - 1)) = Inr (encode_forward_spec seq pos (L - 1))"
    using oligo2index_char_valid [OF l15 assms(7) v1] .
  have il: "int L - 1 = int (L - 1)" using assms(4) by simp
  have enc': "oligo2index_char seq (int pos) (int L - 1) = Inr (encode_forward_spec seq pos (L - 1))"
    using enc by (simp only: il)
  have b: "0 \<le> encode_forward_spec seq pos (L - 1)"
    using encode_forward_spec_bounds [OF assms(7) v1] by simp
  have cl: "cell_at (S m) (encode_forward_spec seq pos (L - 1)) =
      Inr (S m ! nat (encode_forward_spec seq pos (L - 1)))"
    using b assms(10) by (simp add: cell_at_def)
  have lp: "markov_P_loop m seq (int L) (int k) p =
     Inr (p * (\<Prod>i = k..<L.
        T m ! nat (4 * encode_forward_spec seq (i - k) k + char2int (seq ! i))))" for p
    using markov_P_loop_closed [OF assms(1,2,3,6) v0, of k p] by simp
  have ne: "encode_forward_spec seq pos (L - 1) \<noteq> -1" using b by simp
  show ?thesis
    using enc' cl lp ne assms(1) by (simp add: markov_P_def)
qed

lemma all_less_2: "(\<forall>i<2::nat. P i) = (P 0 \<and> P 1)"
  by (auto simp: less_Suc_eq numeral_eq_Suc)

text \<open>
  Claim C10. \<^verbatim>\<open>markov_P\<close> uses its offset only for the first factor. For a model of order
  \<open>k\<close> (at most 14) with \<open>4 * 4 ^ k\<close> transition cells, a length \<open>L\<close> from 1 to 16, and a
  sequence whose first \<open>L\<close> letters and whose \<open>L - 1\<close> letters from the offset are in the
  alphabet, the result is \<open>S\<close> at the index of the \<open>L - 1\<close> letters from the offset (when
  that index is inside \<open>S\<close>), times the product over \<open>i\<close> from \<open>k\<close> to \<open>L - 1\<close> of \<open>T\<close> at the
  window of \<open>k\<close> letters from the absolute position \<open>i - k\<close> and the letter at the absolute
  position \<open>i\<close>: the offset does not occur in the product. On every input, two offsets
  with the same index of the first \<open>L - 1\<close> letters give the same result. So the
  likelihood at an offset \<open>pos > 0\<close> can differ from the likelihood at offset 0 of the
  sequence cut at \<open>pos\<close>: with the skewed model, CAG at offset 1 and length 2 gives
  \<open>S[A] * T[C,A] = 1 / 16\<close>, and AG at offset 0 gives \<open>S[A] * T[A,G] = 1 / 8\<close>.
\<close>

theorem markov_P_offset:
  "(order m = int k \<and> k \<le> 14 \<and> length (T m) = 4 * 4 ^ k \<and>
    1 \<le> L \<and> L \<le> 16 \<and> L \<le> length seq \<and> pos + (L - 1) \<le> length seq \<and>
    (\<forall>i<L. seq ! i \<in> alphabet) \<and> (\<forall>i<L - 1. seq ! (pos + i) \<in> alphabet) \<and>
    nat (encode_forward_spec seq pos (L - 1)) < length (S m) \<longrightarrow>
    markov_P m seq (int pos) (int L) =
      Inr (S m ! nat (encode_forward_spec seq pos (L - 1)) *
           (\<Prod>i = k..<L.
              T m ! nat (4 * encode_forward_spec seq (i - k) k + char2int (seq ! i))))) \<and>
   (\<forall>m seq len pos pos'.
      oligo2index_char seq pos (len - 1) = oligo2index_char seq pos' (len - 1) \<longrightarrow>
      markov_P m seq pos len = markov_P m seq pos' len) \<and>
   (\<exists>m seq len pos. 0 < pos \<and> markov_P m seq pos len \<noteq> markov_P m (drop (nat pos) seq) 0 len)"
proof (intro conjI)
  show "order m = int k \<and> k \<le> 14 \<and> length (T m) = 4 * 4 ^ k \<and>
    1 \<le> L \<and> L \<le> 16 \<and> L \<le> length seq \<and> pos + (L - 1) \<le> length seq \<and>
    (\<forall>i<L. seq ! i \<in> alphabet) \<and> (\<forall>i<L - 1. seq ! (pos + i) \<in> alphabet) \<and>
    nat (encode_forward_spec seq pos (L - 1)) < length (S m) \<longrightarrow>
    markov_P m seq (int pos) (int L) =
      Inr (S m ! nat (encode_forward_spec seq pos (L - 1)) *
           (\<Prod>i = k..<L.
              T m ! nat (4 * encode_forward_spec seq (i - k) k + char2int (seq ! i))))"
    using markov_P_closed [of m k L seq pos] by blast
  show "\<forall>m seq len pos pos'.
      oligo2index_char seq pos (len - 1) = oligo2index_char seq pos' (len - 1) \<longrightarrow>
      markov_P m seq pos len = markov_P m seq pos' len"
    by (simp add: markov_P_def)
  have a: "markov_P model_skewed ''CAG'' 1 2 = Inr (1 / 16)"
    by (simp add: eval_simps model_skewed_def)
  have b: "markov_P model_skewed (drop (nat 1) ''CAG'') 0 2 = Inr (1 / 8)"
    by (simp add: eval_simps model_skewed_def)
  have "(0::int) < 1 \<and>
      markov_P model_skewed ''CAG'' 1 2 \<noteq> markov_P model_skewed (drop (nat 1) ''CAG'') 0 2"
    using a b by simp
  then show "\<exists>m seq len pos. 0 < pos \<and>
      markov_P m seq pos len \<noteq> markov_P m (drop (nat pos) seq) 0 len"
    by blast
qed

theorem markov_P_offset_witness:
  "markov_P model_skewed ''CAG'' (int 1) (int 2) =
     Inr (S model_skewed ! 0 * T model_skewed ! 4) \<and>
   markov_P model_skewed ''AAG'' 0 2 = markov_P model_skewed ''AAG'' 1 2"
proof -
  have h: "order model_skewed = int 1 \<and> (1::nat) \<le> 14 \<and>
      length (T model_skewed) = 4 * 4 ^ 1 \<and>
      (1::nat) \<le> 2 \<and> (2::nat) \<le> 16 \<and> 2 \<le> length ''CAG'' \<and> 1 + (2 - 1) \<le> length ''CAG'' \<and>
      (\<forall>i<2. ''CAG'' ! i \<in> alphabet) \<and> (\<forall>i<2 - 1. ''CAG'' ! (1 + i) \<in> alphabet) \<and>
      nat (encode_forward_spec ''CAG'' 1 (2 - 1)) < length (S model_skewed)"
    by (simp add: model_skewed_def alphabet_def all_less_2 encode_forward_spec_def char2int_def)
  have e: "encode_forward_spec ''CAG'' 1 (2 - 1) = 0" "encode_forward_spec ''CAG'' 0 1 = 1"
    "char2int (''CAG'' ! 1) = 0"
    by (simp_all add: encode_forward_spec_def char2int_def)
  have "markov_P model_skewed ''CAG'' (int 1) (int 2) =
      Inr (S model_skewed ! nat (encode_forward_spec ''CAG'' 1 (2 - 1)) *
           (\<Prod>i = 1..<2.
              T model_skewed ! nat (4 * encode_forward_spec ''CAG'' (i - 1) 1 + char2int (''CAG'' ! i))))"
    using markov_P_offset [of model_skewed 1 2 "''CAG''" 1] h by blast
  then have c1: "markov_P model_skewed ''CAG'' (int 1) (int 2) =
      Inr (S model_skewed ! 0 * T model_skewed ! 4)"
    using e by simp
  have "oligo2index_char ''AAG'' 0 (2 - 1) = oligo2index_char ''AAG'' 1 (2 - 1)"
    by (simp add: eval_simps)
  then have c2: "markov_P model_skewed ''AAG'' 0 2 = markov_P model_skewed ''AAG'' 1 2"
    using markov_P_offset [of model_skewed 1 2 "''CAG''" 1] by blast
  show ?thesis using c1 c2 by simp
qed

end
